theory Spec2Isabelle
  imports Main "HOL-Library.Word" "HOL-Library.Log_Nat"
begin

section \<open>Shared data: buffers and strings\<close>

text \<open>
  A Node \<^verbatim>\<open>Buffer\<close> is a sequence of bytes. A JavaScript string is a sequence of UTF-16
  code units: \<^verbatim>\<open>s.length\<close> counts code units and \<^verbatim>\<open>s[i]\<close> reads one.
  Dimensions and counters are JavaScript numbers holding integers; they are modelled as
  \<^typ>\<open>int\<close> (negative values are possible: the video box is the terminal size minus its
  borders).
\<close>

type_synonym byte = "8 word"
type_synonym buffer = "byte list"
type_synonym code_unit = "16 word"
type_synonym jsstring = "code_unit list"

text \<open>
  \<^verbatim>\<open>Buffer.prototype.slice(start, end)\<close>: a negative index counts from the end, and both
  indices are clamped to the buffer.
\<close>

definition slice_index :: "nat \<Rightarrow> int \<Rightarrow> nat" where
  "slice_index len i = (if i < 0 then nat (max 0 (int len + i)) else min (nat i) len)"

definition buf_slice :: "buffer \<Rightarrow> int \<Rightarrow> int \<Rightarrow> buffer" where
  "buf_slice b s e =
     (let s' = slice_index (length b) s; e' = slice_index (length b) e
      in take (e' - s') (drop s' b))"

definition buf_slice_from :: "buffer \<Rightarrow> int \<Rightarrow> buffer" where
  "buf_slice_from b s = drop (slice_index (length b) s) b"

section \<open>The hardware frame source (ffmpeg-capture.js)\<close>

datatype platform = Darwin | Linux | Win32 | OtherPlatform

text \<open>
  What the class does to the operating system: \<^verbatim>\<open>spawn('ffmpeg', args)\<close>, where the
  arguments are fixed by the platform, the width and the height
  (\<^verbatim>\<open>_getFFmpegArgs\<close>), and \<^verbatim>\<open>this.ffmpeg.kill('SIGTERM')\<close> on a process handle.
\<close>

datatype proc_effect = Spawn platform int int | Kill nat

record ffmpeg_capture =
  fc_ffmpeg :: "nat option"
  fc_isRunning :: bool
  fc_width :: int
  fc_height :: int
  fc_bytesPerFrame :: int
  fc_currentBuffer :: "buffer option"
  fc_frameTimestamp :: int
  fc_incompleteBuffer :: buffer
  fc_platform :: platform
  fc_framesReceived :: int
  fc_lastLogTime :: int

text \<open>The constructor; \<open>now\<close> is what \<^verbatim>\<open>Date.now()\<close> returns.\<close>

definition FFmpegCapture_new :: "platform \<Rightarrow> int \<Rightarrow> ffmpeg_capture" where
  "FFmpegCapture_new plat now =
     \<lparr>fc_ffmpeg = None, fc_isRunning = False, fc_width = 600, fc_height = 150,
      fc_bytesPerFrame = 0, fc_currentBuffer = None, fc_frameTimestamp = 0,
      fc_incompleteBuffer = [], fc_platform = plat, fc_framesReceived = 0,
      fc_lastLogTime = now\<rparr>"

text \<open>
  \<^verbatim>\<open>initialize(width, height)\<close>: \<open>available\<close> is the outcome of the probe
  \<^verbatim>\<open>checkFFmpegAvailable()\<close>, which is returned.
\<close>

definition fc_initialize :: "bool \<Rightarrow> int \<Rightarrow> int \<Rightarrow> ffmpeg_capture \<Rightarrow> ffmpeg_capture \<times> bool" where
  "fc_initialize available w h s =
     (s\<lparr>fc_width := w, fc_height := h, fc_bytesPerFrame := w * h\<rparr>, available)"

text \<open>\<^verbatim>\<open>start()\<close>: \<open>pid\<close> is the handle that \<^verbatim>\<open>spawn\<close> returns.\<close>

definition fc_start :: "nat \<Rightarrow> ffmpeg_capture \<Rightarrow> ffmpeg_capture \<times> proc_effect list" where
  "fc_start pid s =
     (if fc_isRunning s then (s, [])
      else (s\<lparr>fc_ffmpeg := Some pid, fc_isRunning := True\<rparr>,
            [Spawn (fc_platform s) (fc_width s) (fc_height s)]))"

text \<open>The \<^verbatim>\<open>'error'\<close> and \<^verbatim>\<open>'close'\<close> handlers that \<^verbatim>\<open>start()\<close> installs on a process.\<close>

definition fc_onError :: "ffmpeg_capture \<Rightarrow> ffmpeg_capture" where
  "fc_onError s = s\<lparr>fc_isRunning := False\<rparr>"

definition fc_onClose :: "ffmpeg_capture \<Rightarrow> ffmpeg_capture" where
  "fc_onClose s = s\<lparr>fc_isRunning := False\<rparr>"

text \<open>
  The \<^verbatim>\<open>while\<close> loop of \<^verbatim>\<open>_handleFrameData\<close>. \<open>clk\<close> gives the successive readings of
  \<^verbatim>\<open>Date.now()\<close> and \<open>i\<close> counts the readings taken so far; \<open>pub\<close> collects what
  \<^verbatim>\<open>this.currentBuffer\<close> holds at the end of each iteration, in order: the frames
  published. The loop need not end (with \<^verbatim>\<open>bytesPerFrame = 0\<close> it never does), so it is
  a partial function and \<open>None\<close> stands for not returning.
\<close>

partial_function (option) extractFrames ::
  "(nat \<Rightarrow> int) \<Rightarrow> nat \<Rightarrow> ffmpeg_capture \<Rightarrow> buffer list \<Rightarrow>
     (ffmpeg_capture \<times> nat \<times> buffer list) option" where
  "extractFrames clk i s pub =
     (if fc_bytesPerFrame s \<le> int (length (fc_incompleteBuffer s)) then
        (let frame = buf_slice (fc_incompleteBuffer s) 0 (fc_bytesPerFrame s);
             s1 = s\<lparr>fc_currentBuffer := Some frame,
                    fc_frameTimestamp := clk i,
                    fc_framesReceived := fc_framesReceived s + 1,
                    fc_incompleteBuffer :=
                      buf_slice_from (fc_incompleteBuffer s) (fc_bytesPerFrame s)\<rparr>;
             now = clk (i + 1);
             s2 = (if now - fc_lastLogTime s1 > 5000
                   then s1\<lparr>fc_framesReceived := 0, fc_lastLogTime := now\<rparr> else s1)
         in extractFrames clk (i + 2) s2
              (case fc_currentBuffer s2 of None \<Rightarrow> pub | Some held \<Rightarrow> pub @ [held]))
      else Some (s, i, pub))"

definition handleFrameData ::
  "(nat \<Rightarrow> int) \<Rightarrow> nat \<Rightarrow> buffer \<Rightarrow> ffmpeg_capture \<Rightarrow>
     (ffmpeg_capture \<times> nat \<times> buffer list) option" where
  "handleFrameData clk i chunk s =
     extractFrames clk i (s\<lparr>fc_incompleteBuffer := fc_incompleteBuffer s @ chunk\<rparr>) []"

text \<open>The chunks of the subprocess's output, delivered to the handler in order.\<close>

fun feedChunks ::
  "(nat \<Rightarrow> int) \<Rightarrow> nat \<Rightarrow> ffmpeg_capture \<Rightarrow> buffer list \<Rightarrow>
     (ffmpeg_capture \<times> nat \<times> buffer list) option" where
  "feedChunks clk i s [] = Some (s, i, [])"
| "feedChunks clk i s (c # cs) =
     (case handleFrameData clk i c s of
        None \<Rightarrow> None
      | Some (s', i', fs) \<Rightarrow>
          (case feedChunks clk i' s' cs of
             None \<Rightarrow> None
           | Some (s'', i'', fs') \<Rightarrow> Some (s'', i'', fs @ fs')))"

definition fc_getLatestFrame :: "ffmpeg_capture \<Rightarrow> buffer option" where
  "fc_getLatestFrame s = fc_currentBuffer s"

definition fc_stop :: "ffmpeg_capture \<Rightarrow> ffmpeg_capture \<times> proc_effect list" where
  "fc_stop s =
     (if \<not> fc_isRunning s then (s, [])
      else
        (let (s1, eff) = (case fc_ffmpeg s of
                            Some pid \<Rightarrow> (s\<lparr>fc_ffmpeg := None\<rparr>, [Kill pid])
                          | None \<Rightarrow> (s, []))
         in (s1\<lparr>fc_isRunning := False, fc_currentBuffer := None,
                 fc_incompleteBuffer := []\<rparr>, eff)))"

definition fc_updateResolution ::
  "nat \<Rightarrow> int \<Rightarrow> int \<Rightarrow> ffmpeg_capture \<Rightarrow> ffmpeg_capture \<times> proc_effect list" where
  "fc_updateResolution pid w h s =
     (if w = fc_width s \<and> h = fc_height s then (s, [])
      else
        (let (s1, e1) = fc_stop s;
             s2 = s1\<lparr>fc_width := w, fc_height := h, fc_bytesPerFrame := w * h\<rparr>;
             (s3, e2) = fc_start pid s2
         in (s3, e1 @ e2)))"

text \<open>
  The frames of a byte stream: its consecutive slices of \<open>n\<close> bytes, and the bytes left
  over after the last whole slice.
\<close>

definition stream_frames :: "nat \<Rightarrow> buffer \<Rightarrow> buffer list" where
  "stream_frames n xs = map (\<lambda>j. take n (drop (j * n) xs)) [0..<length xs div n]"

definition stream_rest :: "nat \<Rightarrow> buffer \<Rightarrow> buffer" where
  "stream_rest n xs = drop (length xs div n * n) xs"

section \<open>JavaScript numbers\<close>

text \<open>
  A JavaScript number is an IEEE 754 double. The arithmetic of the converter and of the
  frame-rate counter divides and multiplies integers, and the results are rounded to 53
  significant bits (round to nearest, ties to even). A finite double is the dyadic
  rational \<open>m * 2 ^ e\<close>. Every operand below is far from the overflow and the subnormal
  range, which are not modelled; integer operands are below \<open>2 ^ 53\<close> in magnitude, so
  they are doubles themselves.
\<close>

datatype dyadic = Dyadic (mant: int) (expo: int)

definition dval :: "dyadic \<Rightarrow> rat" where
  "dval x = of_int (mant x) * 2 powi (expo x)"

text \<open>The quotient \<open>n / d\<close> (\<open>0 < d\<close>) rounded to the nearest integer, ties to even.\<close>

definition rne :: "int \<Rightarrow> int \<Rightarrow> int" where
  "rne n d =
     (let q = n div d; r = n mod d
      in if 2 * r < d then q else if d < 2 * r then q + 1 else if even q then q else q + 1)"

text \<open>
  The same rounding as a function of the rational: \<open>rne n d\<close> is \<open>rnd (n / d)\<close>. It
  serves the proofs.
\<close>

definition rnd :: "rat \<Rightarrow> int" where
  "rnd x =
     (let q = \<lfloor>x\<rfloor>
      in if x - of_int q < 1 / 2 then q
         else if 1 / 2 < x - of_int q then q + 1
         else if even q then q else q + 1)"

text \<open>The exponent \<open>e\<close> of the binade of \<open>n / d > 0\<close>: \<open>2 ^ e \<le> n / d < 2 ^ (e + 1)\<close>.\<close>

definition binade :: "int \<Rightarrow> int \<Rightarrow> int" where
  "binade n d =
     (let e0 = bitlen n - bitlen d
      in if (if 0 \<le> e0 then d * 2 ^ nat e0 \<le> n else d \<le> n * 2 ^ nat (- e0))
         then e0 else e0 - 1)"

text \<open>The positive rational \<open>n / d\<close> rounded to 53 significant bits.\<close>

definition round53 :: "int \<Rightarrow> int \<Rightarrow> dyadic" where
  "round53 n d =
     (let s = 52 - binade n d
      in Dyadic (if 0 \<le> s then rne (n * 2 ^ nat s) d else rne n (d * 2 ^ nat (- s))) (- s))"

text \<open>The rational \<open>n / d\<close> (\<open>0 < d\<close>) as a double.\<close>

definition to_double :: "int \<Rightarrow> int \<Rightarrow> dyadic" where
  "to_double n d =
     (if n = 0 then Dyadic 0 0
      else if 0 < n then round53 n d
      else Dyadic (- mant (round53 (- n) d)) (expo (round53 (- n) d)))"

text \<open>\<^verbatim>\<open>a / b\<close> for integers \<open>a\<close> and \<open>b \<noteq> 0\<close>.\<close>

definition js_div :: "int \<Rightarrow> int \<Rightarrow> dyadic" where
  "js_div a b = (if 0 < b then to_double a b else to_double (- a) (- b))"

text \<open>\<^verbatim>\<open>x * k\<close> for a double \<open>x\<close> and an integer \<open>k\<close>.\<close>

definition js_mul :: "dyadic \<Rightarrow> int \<Rightarrow> dyadic" where
  "js_mul x k =
     (if 0 \<le> expo x then to_double (mant x * k * 2 ^ nat (expo x)) 1
      else to_double (mant x * k) (2 ^ nat (- expo x)))"

text \<open>\<^verbatim>\<open>Math.floor\<close>, and \<^verbatim>\<open>Math.round\<close> (to the nearest integer, ties upwards).\<close>

definition js_floor :: "dyadic \<Rightarrow> int" where
  "js_floor x =
     (if 0 \<le> expo x then mant x * 2 ^ nat (expo x) else mant x div 2 ^ nat (- expo x))"

definition js_round :: "dyadic \<Rightarrow> int" where
  "js_round x =
     (if 0 \<le> expo x then mant x * 2 ^ nat (expo x)
      else (2 * mant x + 2 ^ nat (- expo x)) div (2 * 2 ^ nat (- expo x)))"

section \<open>The frame converter (converter.js)\<close>

datatype conv_mode = AutoMode | RawMode | SharpMode

record image_converter =
  ic_lastWidth :: int
  ic_lastHeight :: int
  ic_charRamp :: jsstring
  ic_mode :: conv_mode

text \<open>The default ramp of the constructor: a space, U+2591, U+2592, U+2593, U+2588.\<close>

definition default_ramp :: jsstring where
  "default_ramp = [0x20, 0x2591, 0x2592, 0x2593, 0x2588]"

definition ImageConverter_new :: "jsstring \<Rightarrow> image_converter" where
  "ImageConverter_new charRamp =
     \<lparr>ic_lastWidth = 0, ic_lastHeight = 0, ic_charRamp = charRamp, ic_mode = AutoMode\<rparr>"

definition setCharacterRamp :: "jsstring \<Rightarrow> image_converter \<Rightarrow> image_converter" where
  "setCharacterRamp charRamp c = c\<lparr>ic_charRamp := charRamp\<rparr>"

text \<open>
  \<^verbatim>\<open>Math.floor((brightness / 255) * (rampLength - 1))\<close> for a byte of brightness and a
  ramp of \<open>rampLength\<close> code units.
\<close>

definition glyphIndex :: "byte \<Rightarrow> nat \<Rightarrow> int" where
  "glyphIndex brightness rampLength =
     js_floor (js_mul (js_div (uint brightness) 255) (int rampLength - 1))"

text \<open>
  The reading of the formula \<open>floor(b / 255 * (L - 1))\<close> in exact arithmetic, to compare
  with.
\<close>

definition spec_glyphIndex :: "byte \<Rightarrow> nat \<Rightarrow> int" where
  "spec_glyphIndex brightness rampLength = uint brightness * (int rampLength - 1) div 255"

text \<open>\<^verbatim>\<open>s[i]\<close> on a string: \<^verbatim>\<open>undefined\<close> outside the string.\<close>

definition charAt :: "jsstring \<Rightarrow> int \<Rightarrow> code_unit option" where
  "charAt s i = (if 0 \<le> i \<and> i < int (length s) then Some (s ! nat i) else None)"

text \<open>
  \<^verbatim>\<open>pixelData[i]\<close> on a buffer: \<^verbatim>\<open>undefined\<close> outside the buffer, and then the index
  computed from it is \<^verbatim>\<open>NaN\<close> and the glyph read from the ramp is \<^verbatim>\<open>undefined\<close>.
\<close>

definition byteAt :: "buffer \<Rightarrow> int \<Rightarrow> byte option" where
  "byteAt b i = (if 0 \<le> i \<and> i < int (length b) then Some (b ! nat i) else None)"

text \<open>
  The glyph of a pixel, as \<^verbatim>\<open>_brightnessToChar\<close> computes it and \<^verbatim>\<open>_pixelsToAscii\<close> does
  inline.
\<close>

definition brightnessToChar :: "jsstring \<Rightarrow> byte option \<Rightarrow> code_unit option" where
  "brightnessToChar ramp brightness =
     (case brightness of
        None \<Rightarrow> None
      | Some b \<Rightarrow> charAt ramp (glyphIndex b (length ramp)))"

text \<open>
  \<^verbatim>\<open>Array.prototype.join\<close>: an \<^verbatim>\<open>undefined\<close> element contributes the empty string
  (\<open>joinChars\<close> is \<^verbatim>\<open>rowChars.join('')\<close>, \<open>joinLines\<close> is \<^verbatim>\<open>lines.join('\n')\<close>).
\<close>

definition joinChars :: "code_unit option list \<Rightarrow> jsstring" where
  "joinChars cs = concat (map (\<lambda>c. case c of None \<Rightarrow> [] | Some u \<Rightarrow> [u]) cs)"

definition newline :: code_unit where
  "newline = 0x0A"

fun joinLines :: "jsstring list \<Rightarrow> jsstring" where
  "joinLines [] = []"
| "joinLines [l] = l"
| "joinLines (l # ls) = l @ newline # joinLines ls"

definition asciiRow :: "jsstring \<Rightarrow> buffer \<Rightarrow> int \<Rightarrow> nat \<Rightarrow> jsstring" where
  "asciiRow ramp pixelData w y =
     joinChars (map (\<lambda>x. brightnessToChar ramp (byteAt pixelData (int y * w + int x)))
                  [0..<nat w])"

definition pixelsToAscii :: "image_converter \<Rightarrow> buffer \<Rightarrow> int \<Rightarrow> int \<Rightarrow> jsstring" where
  "pixelsToAscii c pixelData w h =
     joinLines (map (asciiRow (ic_charRamp c) pixelData w) [0..<nat h])"

datatype js_error = RangeError

text \<open>
  \<^verbatim>\<open>_createErrorFrame\<close>. \<^verbatim>\<open>String.prototype.repeat\<close> throws a \<^verbatim>\<open>RangeError\<close> on a
  negative count; the other two counts are clamped by \<^verbatim>\<open>Math.max(0, ...)\<close>.
\<close>

definition error_prefix :: jsstring where
  "error_prefix = [0x45, 0x52, 0x52, 0x4F, 0x52, 0x3A, 0x20]"

definition space :: code_unit where
  "space = 0x20"

definition createErrorFrame :: "int \<Rightarrow> int \<Rightarrow> jsstring \<Rightarrow> js_error + jsstring" where
  "createErrorFrame w h errorMsg =
     (let errorLine = error_prefix @ errorMsg;
          padding = (w - int (length errorLine)) div 2;
          verticalPadding = h div 2
      in if verticalPadding < 0 then Inl RangeError
         else Inr (replicate (nat verticalPadding) newline @
                   replicate (nat (max 0 padding)) space @ errorLine @ [newline] @
                   replicate (nat (max 0 (h - verticalPadding - 1))) newline))"

text \<open>
  A grid of \<open>w\<close> by \<open>h\<close> glyphs, as the converter produces it from pixels: \<open>h\<close> rows
  separated by newlines, each of \<open>w\<close> code units (\<open>splitLines\<close> is \<^verbatim>\<open>s.split('\n')\<close>).
\<close>

fun splitLines :: "jsstring \<Rightarrow> jsstring list" where
  "splitLines [] = [[]]"
| "splitLines (c # cs) =
     (if c = newline then [] # splitLines cs
      else (c # hd (splitLines cs)) # tl (splitLines cs))"

definition isGlyphGrid :: "int \<Rightarrow> int \<Rightarrow> jsstring \<Rightarrow> bool" where
  "isGlyphGrid w h s =
     (int (length (splitLines s)) = h \<and> list_all (\<lambda>row. int (length row) = w) (splitLines s))"

text \<open>
  The image library (sharp) is a collaborator: given the encoded bytes and the target
  size it returns the resized single-channel pixels with the size achieved, or fails with
  a message.
\<close>

type_synonym sharp_fn = "buffer \<Rightarrow> int \<Rightarrow> int \<Rightarrow> jsstring + (buffer \<times> int \<times> int)"

datatype conv_log = ImageConversionError jsstring

definition convertWithSharp ::
  "sharp_fn \<Rightarrow> image_converter \<Rightarrow> buffer \<Rightarrow> int \<Rightarrow> int \<Rightarrow> jsstring + jsstring" where
  "convertWithSharp sharp c imageSource w h =
     (case sharp imageSource w h of
        Inl msg \<Rightarrow> Inl msg
      | Inr (data, iw, ih) \<Rightarrow> Inr (pixelsToAscii c data iw ih))"

text \<open>
  \<^verbatim>\<open>convertToTerminal\<close>: the image source is a buffer, or absent (\<^verbatim>\<open>null\<close>). The result is
  the converter after the call, what was written to the console, and the string returned
  or the error thrown.
\<close>

definition convertToTerminal ::
  "sharp_fn \<Rightarrow> buffer option \<Rightarrow> int \<Rightarrow> int \<Rightarrow> image_converter \<Rightarrow>
     image_converter \<times> conv_log list \<times> (js_error + jsstring)" where
  "convertToTerminal sharp imageSource w h c =
     (case imageSource of
        None \<Rightarrow> (c, [], Inr [])
      | Some src \<Rightarrow>
          (let c1 = c\<lparr>ic_lastWidth := w, ic_lastHeight := h\<rparr>;
               expectedRawBytes = w * h;
               isRawPixels = (int (length src) = expectedRawBytes)
           in if isRawPixels \<and> ic_mode c1 \<noteq> SharpMode
              then (c1, [], Inr (pixelsToAscii c1 src w h))
              else (case convertWithSharp sharp c1 src w h of
                      Inr frame \<Rightarrow> (c1, [], Inr frame)
                    | Inl msg \<Rightarrow>
                        (c1, [ImageConversionError msg], createErrorFrame w h msg))))"

definition getDimensions :: "image_converter \<Rightarrow> int \<times> int" where
  "getDimensions c = (ic_lastWidth c, ic_lastHeight c)"

section \<open>The software frame source (capture.js, config.js)\<close>

text \<open>
  \<^verbatim>\<open>getOptimalCaptureResolution\<close> and \<^verbatim>\<open>createWebcamConfig\<close>. The \<^verbatim>\<open>delay\<close> of the
  configuration is a getter, \<^verbatim>\<open>Math.floor(1000 / this.targetFPS)\<close>; for a target rate of
  zero the source's value is \<^verbatim>\<open>Infinity\<close>, which \<open>cfg_delay\<close> does not represent.
\<close>

definition getOptimalCaptureResolution :: "int \<Rightarrow> int \<Rightarrow> int \<times> int" where
  "getOptimalCaptureResolution terminalWidth terminalHeight =
     (let multiplier = 6;
          captureWidth = min (terminalWidth * multiplier) 1024;
          captureHeight = min (terminalHeight * multiplier) 576
      in (captureWidth div 2 * 2, captureHeight div 2 * 2))"

record webcam_config =
  cfg_targetFPS :: int
  cfg_width :: int
  cfg_height :: int
  cfg_quality :: int
  cfg_tmpFile :: string

definition cfg_delay :: "webcam_config \<Rightarrow> int" where
  "cfg_delay c = 1000 div cfg_targetFPS c"

definition createWebcamConfig :: "int \<Rightarrow> int \<Rightarrow> webcam_config" where
  "createWebcamConfig terminalWidth terminalHeight =
     (let (w, h) = getOptimalCaptureResolution terminalWidth terminalHeight
      in \<lparr>cfg_targetFPS = 20, cfg_width = w, cfg_height = h, cfg_quality = 75,
          cfg_tmpFile = ''/tmp/webcam-frame.jpg''\<rparr>)"

definition default_config :: webcam_config where
  "default_config = createWebcamConfig 100 25"

text \<open>
  What the class does outside itself: \<^verbatim>\<open>NodeWebcam.create(opts)\<close> with the width and the
  height of the options, a request to the driver for one image, and the console.
\<close>

datatype sw_effect =
    CreateWebcam int int
  | LogInitialized int int
  | RequestCapture
  | LogContinuousCaptureError jsstring

text \<open>
  \<^verbatim>\<open>_runCaptureLoop\<close> is an \<^verbatim>\<open>async\<close> function: it runs until it awaits, and is resumed
  by the event it awaits. Every call of \<^verbatim>\<open>startContinuousCapture\<close> that passes its guard
  starts a run of the loop. \<^verbatim>\<open>stopContinuousCapture\<close> clears \<^verbatim>\<open>captureLoopRunning\<close> at
  once, while a run may still be suspended, so a later start puts a second run beside
  the first and the two go on together. \<open>wc_loops\<close> holds the runs in the order in which
  they were started, each with the point at which it is suspended: in the acquisition of
  one image (\<^verbatim>\<open>webcam.capture\<close>, then \<^verbatim>\<open>fs.readFile\<close>), or in the \<^verbatim>\<open>setImmediate\<close> that
  ends an iteration; \<open>LoopEnded\<close> once the run has left its \<^verbatim>\<open>while\<close> loop. A run is
  named by its position in the list.
\<close>

datatype loop_point = LoopEnded | LoopAcquiring | LoopYielding

record webcam_capture =
  wc_webcam :: "(int \<times> int) option"
  wc_isInitialized :: bool
  wc_captureInProgress :: bool
  wc_continuousMode :: bool
  wc_captureLoopRunning :: bool
  wc_lastFramePath :: "string option"
  wc_lastFrameBuffer :: "buffer option"
  wc_lastFrameTimestamp :: int
  wc_config :: webcam_config
  wc_loops :: "loop_point list"

definition WebcamCapture_new :: webcam_capture where
  "WebcamCapture_new =
     \<lparr>wc_webcam = None, wc_isInitialized = False, wc_captureInProgress = False,
      wc_continuousMode = False, wc_captureLoopRunning = False, wc_lastFramePath = None,
      wc_lastFrameBuffer = None, wc_lastFrameTimestamp = 0, wc_config = default_config,
      wc_loops = []\<rparr>"

text \<open>
  \<^verbatim>\<open>initialize(width = null, height = null)\<close>: the dimensions are taken only when both
  are truthy, that is neither \<^verbatim>\<open>null\<close> nor zero.
\<close>

definition truthy :: "int option \<Rightarrow> bool" where
  "truthy v = (case v of None \<Rightarrow> False | Some n \<Rightarrow> n \<noteq> 0)"

definition wc_initialize ::
  "int option \<Rightarrow> int option \<Rightarrow> webcam_capture \<Rightarrow> webcam_capture \<times> sw_effect list" where
  "wc_initialize width height s =
     (if wc_isInitialized s then (s, [])
      else
        (let cfg = (if truthy width \<and> truthy height
                    then (wc_config s)\<lparr>cfg_width := the width, cfg_height := the height\<rparr>
                    else wc_config s)
         in (s\<lparr>wc_config := cfg, wc_webcam := Some (cfg_width cfg, cfg_height cfg),
                wc_isInitialized := True\<rparr>,
             [CreateWebcam (cfg_width cfg) (cfg_height cfg),
              LogInitialized (cfg_width cfg) (cfg_height cfg)])))"

definition wc_updateResolution ::
  "int \<Rightarrow> int \<Rightarrow> webcam_capture \<Rightarrow> webcam_capture \<times> sw_effect list" where
  "wc_updateResolution width height s =
     (if width = cfg_width (wc_config s) \<and> height = cfg_height (wc_config s) then (s, [])
      else
        wc_initialize None None
          (s\<lparr>wc_config := (wc_config s)\<lparr>cfg_width := width, cfg_height := height\<rparr>,
             wc_isInitialized := False\<rparr>))"

text \<open>
  The head of the \<^verbatim>\<open>while\<close> loop of the run \<open>r\<close>, up to its next \<^verbatim>\<open>await\<close>: the run ends
  when \<^verbatim>\<open>continuousMode\<close> is off; an iteration that finds an acquisition outstanding (its
  own cannot be, so one of another run) skips to the \<^verbatim>\<open>setImmediate\<close>; otherwise it marks
  the acquisition in progress and requests it.
\<close>

definition wc_loopHead :: "nat \<Rightarrow> webcam_capture \<Rightarrow> webcam_capture \<times> sw_effect list" where
  "wc_loopHead r s =
     (if wc_continuousMode s then
        (if \<not> wc_captureInProgress s
         then (s\<lparr>wc_captureInProgress := True, wc_loops := (wc_loops s)[r := LoopAcquiring]\<rparr>,
               [RequestCapture])
         else (s\<lparr>wc_loops := (wc_loops s)[r := LoopYielding]\<rparr>, []))
      else (s\<lparr>wc_captureLoopRunning := False, wc_loops := (wc_loops s)[r := LoopEnded]\<rparr>, []))"

text \<open>
  \<^verbatim>\<open>startContinuousCapture\<close>: the new run takes the next position of the list and runs
  from the head of its loop; the flags are set before, so it does not end there.
\<close>

definition wc_startContinuousCapture :: "webcam_capture \<Rightarrow> webcam_capture \<times> sw_effect list" where
  "wc_startContinuousCapture s =
     (if wc_captureLoopRunning s then (s, [])
      else wc_loopHead (length (wc_loops s))
             (s\<lparr>wc_continuousMode := True, wc_captureLoopRunning := True,
                wc_loops := wc_loops s @ [LoopEnded]\<rparr>))"

definition wc_stopContinuousCapture :: "webcam_capture \<Rightarrow> webcam_capture" where
  "wc_stopContinuousCapture s = s\<lparr>wc_continuousMode := False, wc_captureLoopRunning := False\<rparr>"

text \<open>
  How an acquisition ends: the driver reports an error, or the file cannot be read, or
  the bytes of the image are read.
\<close>

datatype acquisition = CaptureFailed jsstring | ReadFailed jsstring | Acquired buffer

text \<open>
  The rest of the \<^verbatim>\<open>try\<close> statement of the run \<open>r\<close> once its acquisition has ended
  (\<open>now\<close> is \<^verbatim>\<open>Date.now()\<close>): the \<^verbatim>\<open>catch\<close> clause logs, the \<^verbatim>\<open>finally\<close> clause clears the
  flag, and the run awaits \<^verbatim>\<open>setImmediate\<close>.
\<close>

definition wc_acquisitionDone ::
  "nat \<Rightarrow> acquisition \<Rightarrow> int \<Rightarrow> webcam_capture \<Rightarrow> webcam_capture \<times> sw_effect list" where
  "wc_acquisitionDone r outcome now s =
     (let (s1, eff) =
            (case outcome of
               Acquired bytes \<Rightarrow>
                 (s\<lparr>wc_lastFrameBuffer := Some bytes,
                    wc_lastFramePath := Some (cfg_tmpFile (wc_config s)),
                    wc_lastFrameTimestamp := now\<rparr>, [])
             | CaptureFailed msg \<Rightarrow> (s, [LogContinuousCaptureError msg])
             | ReadFailed msg \<Rightarrow> (s, [LogContinuousCaptureError msg]))
      in (s1\<lparr>wc_captureInProgress := False, wc_loops := (wc_loops s1)[r := LoopYielding]\<rparr>,
          eff))"

text \<open>
  The events that resume a suspended run, each naming the run it belongs to; an event
  that its run does not await changes nothing.
\<close>

datatype loop_event = AcquisitionEnds nat acquisition int | ImmediateFires nat

definition awaits :: "webcam_capture \<Rightarrow> nat \<Rightarrow> loop_point \<Rightarrow> bool" where
  "awaits s r p = (r < length (wc_loops s) \<and> wc_loops s ! r = p)"

definition wc_resume :: "loop_event \<Rightarrow> webcam_capture \<Rightarrow> webcam_capture \<times> sw_effect list" where
  "wc_resume ev s =
     (case ev of
        AcquisitionEnds r outcome now \<Rightarrow>
          (if awaits s r LoopAcquiring then wc_acquisitionDone r outcome now s else (s, []))
      | ImmediateFires r \<Rightarrow>
          (if awaits s r LoopYielding then wc_loopHead r s else (s, [])))"

fun wc_run :: "loop_event list \<Rightarrow> webcam_capture \<Rightarrow> webcam_capture \<times> sw_effect list" where
  "wc_run [] s = (s, [])"
| "wc_run (ev # evs) s =
     (let (s1, e1) = wc_resume ev s; (s2, e2) = wc_run evs s1 in (s2, e1 @ e2))"

text \<open>
  The message of an acquisition that failed, and the events of the loop other than a
  successful acquisition.
\<close>

definition failed_message :: "acquisition \<Rightarrow> jsstring option" where
  "failed_message a =
     (case a of CaptureFailed m \<Rightarrow> Some m | ReadFailed m \<Rightarrow> Some m | Acquired _ \<Rightarrow> None)"

definition failing_event :: "loop_event \<Rightarrow> bool" where
  "failing_event ev =
     (case ev of AcquisitionEnds _ (Acquired _) _ \<Rightarrow> False | _ \<Rightarrow> True)"

definition wc_getLatestFrame :: "webcam_capture \<Rightarrow> buffer option" where
  "wc_getLatestFrame s = wc_lastFrameBuffer s"

definition wc_getLatestFramePath :: "webcam_capture \<Rightarrow> string option" where
  "wc_getLatestFramePath s = wc_lastFramePath s"

section \<open>The capture supervisor (hybrid-capture.js)\<close>

datatype capture_mode = Hardware | Software

text \<open>
  \<^verbatim>\<open>activeCapture\<close> is a reference to one of the two capture objects the supervisor
  holds, so it is modelled by which of the two it refers to.
\<close>

datatype active_capture = ActiveFFmpeg | ActiveSoftware

datatype hc_effect = Proc proc_effect | Soft sw_effect

record hybrid_capture =
  hc_ffmpegCapture :: "ffmpeg_capture option"
  hc_softwareCapture :: "webcam_capture option"
  hc_activeCapture :: "active_capture option"
  hc_mode :: "capture_mode option"
  hc_width :: int
  hc_height :: int

definition HybridCapture_new :: hybrid_capture where
  "HybridCapture_new =
     \<lparr>hc_ffmpegCapture = None, hc_softwareCapture = None, hc_activeCapture = None,
      hc_mode = None, hc_width = 600, hc_height = 150\<rparr>"

text \<open>
  \<^verbatim>\<open>initialize(width, height)\<close>; the environment gives the platform, the clock, the outcome
  of the probe and the handle of the spawned process.
\<close>

definition hc_initialize ::
  "platform \<Rightarrow> int \<Rightarrow> bool \<Rightarrow> nat \<Rightarrow> int \<Rightarrow> int \<Rightarrow> hybrid_capture \<Rightarrow>
     hybrid_capture \<times> hc_effect list \<times> capture_mode" where
  "hc_initialize plat now available pid width height s =
     (let s1 = s\<lparr>hc_width := width, hc_height := height\<rparr>;
          (fc, ffmpegAvailable) = fc_initialize available width height (FFmpegCapture_new plat now)
      in if ffmpegAvailable then
           (let (fc', e) = fc_start pid fc
            in (s1\<lparr>hc_ffmpegCapture := Some fc', hc_activeCapture := Some ActiveFFmpeg,
                    hc_mode := Some Hardware\<rparr>, map Proc e, Hardware))
         else
           (let (sc, e1) = wc_initialize (Some width) (Some height) WebcamCapture_new;
                (sc', e2) = wc_startContinuousCapture sc
            in (s1\<lparr>hc_ffmpegCapture := Some fc, hc_softwareCapture := Some sc',
                    hc_activeCapture := Some ActiveSoftware, hc_mode := Some Software\<rparr>,
                map Soft (e1 @ e2), Software)))"

definition hc_getLatestFrame :: "hybrid_capture \<Rightarrow> buffer option" where
  "hc_getLatestFrame s =
     (case hc_activeCapture s of
        None \<Rightarrow> None
      | Some ActiveFFmpeg \<Rightarrow> Option.bind (hc_ffmpegCapture s) fc_getLatestFrame
      | Some ActiveSoftware \<Rightarrow> Option.bind (hc_softwareCapture s) wc_getLatestFrame)"

definition hc_updateResolution ::
  "nat \<Rightarrow> int \<Rightarrow> int \<Rightarrow> hybrid_capture \<Rightarrow> hybrid_capture \<times> hc_effect list" where
  "hc_updateResolution pid width height s =
     (if width = hc_width s \<and> height = hc_height s then (s, [])
      else
        (let s1 = s\<lparr>hc_width := width, hc_height := height\<rparr>
         in case hc_activeCapture s1 of
              None \<Rightarrow> (s1, [])
            | Some ActiveFFmpeg \<Rightarrow>
                (case hc_ffmpegCapture s1 of
                   None \<Rightarrow> (s1, [])
                 | Some fc \<Rightarrow>
                     (let (fc', e) = fc_updateResolution pid width height fc
                      in (s1\<lparr>hc_ffmpegCapture := Some fc'\<rparr>, map Proc e)))
            | Some ActiveSoftware \<Rightarrow>
                (case hc_softwareCapture s1 of
                   None \<Rightarrow> (s1, [])
                 | Some sc \<Rightarrow>
                     (let (sc', e) = wc_updateResolution width height sc
                      in (s1\<lparr>hc_softwareCapture := Some sc'\<rparr>, map Soft e)))))"

definition hc_getMode :: "hybrid_capture \<Rightarrow> capture_mode option" where
  "hc_getMode s = hc_mode s"

text \<open>
  The events of the hardware source that reach the supervisor's state between two calls:
  a chunk of output, or the close of a process.
\<close>

definition hc_onChunk ::
  "(nat \<Rightarrow> int) \<Rightarrow> nat \<Rightarrow> buffer \<Rightarrow> hybrid_capture \<Rightarrow> hybrid_capture option" where
  "hc_onChunk clk i chunk s =
     (case hc_ffmpegCapture s of
        None \<Rightarrow> Some s
      | Some fc \<Rightarrow>
          (case handleFrameData clk i chunk fc of
             None \<Rightarrow> None
           | Some (fc', _, _) \<Rightarrow> Some (s\<lparr>hc_ffmpegCapture := Some fc'\<rparr>)))"

definition hc_onClose :: "hybrid_capture \<Rightarrow> hybrid_capture" where
  "hc_onClose s = s\<lparr>hc_ffmpegCapture := map_option fc_onClose (hc_ffmpegCapture s)\<rparr>"

section \<open>The render scheduler (terminal.js)\<close>

text \<open>
  The timers of the event loop: \<^verbatim>\<open>setTimeout\<close> registers a timer and returns its handle,
  \<^verbatim>\<open>clearTimeout\<close> removes it, and a timer that fires leaves the list.
\<close>

record event_loop =
  el_pending :: "(nat \<times> int) list"
  el_nextId :: nat

definition setTimeout :: "int \<Rightarrow> event_loop \<Rightarrow> nat \<times> event_loop" where
  "setTimeout delay el =
     (el_nextId el,
      el\<lparr>el_pending := el_pending el @ [(el_nextId el, delay)],
         el_nextId := Suc (el_nextId el)\<rparr>)"

definition clearTimeout :: "nat \<Rightarrow> event_loop \<Rightarrow> event_loop" where
  "clearTimeout tid el = el\<lparr>el_pending := filter (\<lambda>t. fst t \<noteq> tid) (el_pending el)\<rparr>"

text \<open>
  The times of \<^verbatim>\<open>performance.now()\<close> are doubles; nothing is assumed of their type \<open>'t\<close>
  but that it has a zero, a sum and a difference.
\<close>

record 't perf_stats =
  ps_captureTime :: 't
  ps_sharpTime :: 't
  ps_totalTime :: 't
  ps_sampleCount :: int

definition zero_stats :: "'t::zero perf_stats" where
  "zero_stats = \<lparr>ps_captureTime = 0, ps_sharpTime = 0, ps_totalTime = 0, ps_sampleCount = 0\<rparr>"

text \<open>
  The two callbacks are functions of the surrounding application; the renderer's state
  holds whether each is set, and a call is an event of the tick.
\<close>

record 't renderer =
  tr_config :: webcam_config
  tr_converter :: image_converter
  tr_isRunning :: bool
  tr_timeoutId :: "nat option"
  tr_frameCount :: int
  tr_lastFpsUpdate :: int
  tr_currentFps :: int
  tr_onFrameCallback :: bool
  tr_onStatsCallback :: bool
  tr_performanceStats :: "'t perf_stats"
  tr_enablePerfLogging :: bool

definition TerminalRenderer_new :: "webcam_config \<Rightarrow> int \<Rightarrow> 't::zero renderer" where
  "TerminalRenderer_new config now =
     \<lparr>tr_config = config, tr_converter = ImageConverter_new default_ramp,
      tr_isRunning = False, tr_timeoutId = None, tr_frameCount = 0, tr_lastFpsUpdate = now,
      tr_currentFps = 0, tr_onFrameCallback = False, tr_onStatsCallback = False,
      tr_performanceStats = zero_stats, tr_enablePerfLogging = False\<rparr>"

datatype 't tick_event =
    EvSetTimeout nat int
  | EvClearTimeout nat
  | EvGetLatestFrame
  | EvGetDimensions
  | EvConvert int int
  | EvConsole conv_log
  | EvOnFrame jsstring
  | EvOnStats int int int "int \<times> int"
  | EvPerfReport "capture_mode option" "'t perf_stats" int
  | EvRenderLoopError

text \<open>
  What the environment gives to one tick: the six readings of \<^verbatim>\<open>performance.now()\<close>, the
  dimensions from the provider (or its failure), the image library, whether each callback
  throws, and the reading of \<^verbatim>\<open>Date.now()\<close>.
\<close>

record 't tick_env =
  te_frameStart :: 't
  te_captureStart :: 't
  te_captureEnd :: 't
  te_sharpStart :: 't
  te_sharpEnd :: 't
  te_totalEnd :: 't
  te_dimensions :: "(int \<times> int) option"
  te_sharp :: sharp_fn
  te_onFrameThrows :: bool
  te_onStatsThrows :: bool
  te_now :: int

definition scheduleNextFrame ::
  "'t renderer \<times> event_loop \<Rightarrow> ('t renderer \<times> event_loop) \<times> 't tick_event list" where
  "scheduleNextFrame st =
     (let (r, el) = st
      in if \<not> tr_isRunning r then (st, [])
         else
           (let (tid, el') = setTimeout (cfg_delay (tr_config r)) el
            in ((r\<lparr>tr_timeoutId := Some tid\<rparr>, el'),
                [EvSetTimeout tid (cfg_delay (tr_config r))])))"

definition tr_start ::
  "bool \<Rightarrow> bool \<Rightarrow> int \<Rightarrow> 't renderer \<times> event_loop \<Rightarrow>
     ('t renderer \<times> event_loop) \<times> 't tick_event list" where
  "tr_start onFrame onStats now st =
     (let (r, el) = st
      in if tr_isRunning r then (st, [])
         else scheduleNextFrame
                (r\<lparr>tr_onFrameCallback := onFrame, tr_onStatsCallback := onStats,
                   tr_isRunning := True, tr_frameCount := 0, tr_lastFpsUpdate := now\<rparr>, el))"

definition tr_stop ::
  "'t renderer \<times> event_loop \<Rightarrow> ('t renderer \<times> event_loop) \<times> 't tick_event list" where
  "tr_stop st =
     (let (r, el) = st
      in if \<not> tr_isRunning r then (st, [])
         else
           (let r1 = r\<lparr>tr_isRunning := False\<rparr>
            in case tr_timeoutId r1 of
                 Some tid \<Rightarrow> ((r1\<lparr>tr_timeoutId := None\<rparr>, clearTimeout tid el),
                              [EvClearTimeout tid])
               | None \<Rightarrow> ((r1, el), [])))"

text \<open>\<^verbatim>\<open>_trackPerformance\<close>; \<open>mode\<close> is \<^verbatim>\<open>this.webcam.getMode()\<close>, read for the report.\<close>

definition trackPerformance ::
  "capture_mode option \<Rightarrow> 't \<Rightarrow> 't \<Rightarrow> 't \<Rightarrow> 't::{zero,plus} renderer \<Rightarrow>
     't renderer \<times> 't tick_event list" where
  "trackPerformance mode captureTime sharpTime totalTime r =
     (let p = tr_performanceStats r;
          p1 = p\<lparr>ps_captureTime := ps_captureTime p + captureTime,
                 ps_sharpTime := ps_sharpTime p + sharpTime,
                 ps_totalTime := ps_totalTime p + totalTime,
                 ps_sampleCount := ps_sampleCount p + 1\<rparr>
      in if tr_enablePerfLogging r \<and> ps_sampleCount p1 mod 100 = 0
         then (r\<lparr>tr_performanceStats := zero_stats\<rparr>,
               [EvPerfReport mode p1 (tr_currentFps r)])
         else (r\<lparr>tr_performanceStats := p1\<rparr>, []))"

definition togglePerfLogging :: "'t renderer \<Rightarrow> 't renderer \<times> bool" where
  "togglePerfLogging r =
     (r\<lparr>tr_enablePerfLogging := \<not> tr_enablePerfLogging r\<rparr>, \<not> tr_enablePerfLogging r)"

text \<open>
  \<^verbatim>\<open>_updateFps\<close>; the last component tells whether the statistics callback threw, in which
  case the two assignments after the call are not reached.
\<close>

definition updateFps ::
  "int \<Rightarrow> bool \<Rightarrow> 't renderer \<Rightarrow> 't renderer \<times> 't tick_event list \<times> bool" where
  "updateFps now statsThrows r =
     (let r1 = r\<lparr>tr_frameCount := tr_frameCount r + 1\<rparr>;
          elapsed = now - tr_lastFpsUpdate r1
      in if 1000 \<le> elapsed then
           (let r2 = r1\<lparr>tr_currentFps := js_round (js_div (tr_frameCount r1 * 1000) elapsed)\<rparr>;
                call = [EvOnStats (tr_currentFps r2) (cfg_targetFPS (tr_config r2))
                          (tr_frameCount r2) (getDimensions (tr_converter r2))]
            in if tr_onStatsCallback r2 \<and> statsThrows then (r2, call, True)
               else (r2\<lparr>tr_frameCount := 0, tr_lastFpsUpdate := now\<rparr>,
                     (if tr_onStatsCallback r2 then call else []), False))
         else (r1, [], False))"

text \<open>
  \<^verbatim>\<open>_captureAndRender\<close> is an \<^verbatim>\<open>async\<close> function that awaits the conversion: a tick has a
  first part, run when its timer fires, and a second part, run when the conversion has
  ended; other ticks may begin in between. What the first part hands to the second is
  the conversion in flight: its outcome with what it writes to the console, and the
  readings of the clock taken so far.
\<close>

record 't in_flight =
  fl_result :: "js_error + jsstring"
  fl_logs :: "conv_log list"
  fl_frameStart :: 't
  fl_captureTime :: 't
  fl_sharpStart :: 't

text \<open>
  The first part of a tick, up to the \<^verbatim>\<open>await\<close>: \<open>cap\<close> is the capture supervisor the
  renderer reads. Everything after the scheduling of the next tick is inside the
  \<^verbatim>\<open>try\<close> statement, whose \<^verbatim>\<open>catch\<close> clause writes the error to the console. The call of
  the converter stores the dimensions at once; its outcome is known to the tick only in
  the second part.
\<close>

definition tickBegin ::
  "'t tick_env \<Rightarrow> hybrid_capture \<Rightarrow> 't::{zero,plus,minus} renderer \<times> event_loop \<Rightarrow>
     ('t renderer \<times> event_loop) \<times> 't tick_event list \<times> 't in_flight option" where
  "tickBegin env cap st =
     (if \<not> tr_isRunning (fst st) then (st, [], None)
      else
        (let ((r1, el1), ev1) = scheduleNextFrame st;
             frameBuffer = hc_getLatestFrame cap;
             captureTime = te_captureEnd env - te_captureStart env
         in case frameBuffer of
              None \<Rightarrow> ((r1, el1), ev1 @ [EvGetLatestFrame], None)
            | Some fb \<Rightarrow>
                (case te_dimensions env of
                   None \<Rightarrow>
                     ((r1, el1), ev1 @ [EvGetLatestFrame, EvGetDimensions, EvRenderLoopError],
                      None)
                 | Some (w, h) \<Rightarrow>
                     (let (c', logs, res) =
                            convertToTerminal (te_sharp env) (Some fb) w h (tr_converter r1)
                      in ((r1\<lparr>tr_converter := c'\<rparr>, el1),
                          ev1 @ [EvGetLatestFrame, EvGetDimensions, EvConvert w h],
                          Some \<lparr>fl_result = res, fl_logs = logs,
                                fl_frameStart = te_frameStart env,
                                fl_captureTime = captureTime,
                                fl_sharpStart = te_sharpStart env\<rparr>)))))"

text \<open>The second part of a tick, from the end of the conversion.\<close>

definition tickEnd ::
  "'t tick_env \<Rightarrow> hybrid_capture \<Rightarrow> 't in_flight \<Rightarrow>
     't::{zero,plus,minus} renderer \<times> event_loop \<Rightarrow>
     ('t renderer \<times> event_loop) \<times> 't tick_event list" where
  "tickEnd env cap fl st =
     (let (r2, el) = st;
          ev2 = map EvConsole (fl_logs fl);
          sharpTime = te_sharpEnd env - fl_sharpStart fl
      in case fl_result fl of
           Inl err \<Rightarrow> (st, ev2 @ [EvRenderLoopError])
         | Inr terminalFrame \<Rightarrow>
             (if tr_onFrameCallback r2 \<and> te_onFrameThrows env
              then (st, ev2 @ [EvOnFrame terminalFrame, EvRenderLoopError])
              else
                (let ev3 = ev2 @ (if tr_onFrameCallback r2 then [EvOnFrame terminalFrame] else []);
                     totalTime = te_totalEnd env - fl_frameStart fl;
                     (r3, ev4) = trackPerformance (hc_getMode cap)
                                   (fl_captureTime fl) sharpTime totalTime r2;
                     (r4, ev5, threw) = updateFps (te_now env) (te_onStatsThrows env) r3
                 in ((r4, el),
                     ev3 @ ev4 @ ev5 @ (if threw then [EvRenderLoopError] else [])))))"

text \<open>A whole tick, when nothing else runs during its \<^verbatim>\<open>await\<close>.\<close>

definition captureAndRender ::
  "'t tick_env \<Rightarrow> hybrid_capture \<Rightarrow> 't::{zero,plus,minus} renderer \<times> event_loop \<Rightarrow>
     ('t renderer \<times> event_loop) \<times> 't tick_event list" where
  "captureAndRender env cap st =
     (let (st1, ev1, fl) = tickBegin env cap st
      in case fl of
           None \<Rightarrow> (st1, ev1)
         | Some f \<Rightarrow> (let (st2, ev2) = tickEnd env cap f st1 in (st2, ev1 @ ev2)))"

text \<open>
  The scheduler under the event loop. The state is the renderer, the timers and the
  conversions in flight. Either the oldest pending timer fires, which begins a tick, or
  one of the conversions in flight ends, which resumes its tick. With no timer pending
  no tick can begin any more: the result of a firing is then \<open>None\<close>.
\<close>

datatype 't sched_event =
    TimerFires "'t tick_env" hybrid_capture
  | ConversionEnds nat "'t tick_env" hybrid_capture

type_synonym 't sched_state = "('t renderer \<times> event_loop) \<times> 't in_flight list"

definition schedStep ::
  "'t sched_event \<Rightarrow> 't::{zero,plus,minus} sched_state \<Rightarrow>
     ('t sched_state \<times> 't tick_event list) option" where
  "schedStep ev s =
     (let ((r, el), fls) = s
      in case ev of
           TimerFires env cap \<Rightarrow>
             (case el_pending el of
                [] \<Rightarrow> None
              | t # ts \<Rightarrow>
                  (let (st1, tr, fl) = tickBegin env cap (r, el\<lparr>el_pending := ts\<rparr>)
                   in Some ((st1, fls @ (case fl of None \<Rightarrow> [] | Some f \<Rightarrow> [f])), tr)))
         | ConversionEnds i env cap \<Rightarrow>
             (if i < length fls
              then (let (st1, tr) = tickEnd env cap (fls ! i) (r, el)
                    in Some ((st1, take i fls @ drop (Suc i) fls), tr))
              else Some (s, [])))"

fun schedRun ::
  "'t sched_event list \<Rightarrow> 't::{zero,plus,minus} sched_state \<Rightarrow>
     ('t sched_state \<times> 't tick_event list list) option" where
  "schedRun [] s = Some (s, [])"
| "schedRun (e # es) s =
     (case schedStep e s of
        None \<Rightarrow> None
      | Some (s', tr) \<Rightarrow>
          (case schedRun es s' of
             None \<Rightarrow> None
           | Some (s'', trs) \<Rightarrow> Some (s'', tr # trs)))"

definition is_firing :: "'t sched_event \<Rightarrow> bool" where
  "is_firing ev = (case ev of TimerFires _ _ \<Rightarrow> True | _ \<Rightarrow> False)"

text \<open>The calls of \<^verbatim>\<open>_trackPerformance\<close> of successive ticks.\<close>

fun trackMany ::
  "('t \<times> 't \<times> 't) list \<Rightarrow> 't::{zero,plus} renderer \<Rightarrow> 't renderer" where
  "trackMany [] r = r"
| "trackMany ((c, s, t) # xs) r = trackMany xs (fst (trackPerformance None c s t r))"

definition setCharacterSet :: "jsstring \<Rightarrow> 't renderer \<Rightarrow> 't renderer" where
  "setCharacterSet charRamp r = r\<lparr>tr_converter := setCharacterRamp charRamp (tr_converter r)\<rparr>"

text \<open>
  The events of a tick other than those of the timers are its work. A tick is scheduled
  when its first event registers a timer and all the rest is work.
\<close>


definition is_work :: "'t tick_event \<Rightarrow> bool" where
  "is_work ev = (case ev of EvSetTimeout _ _ \<Rightarrow> False | EvClearTimeout _ \<Rightarrow> False | _ \<Rightarrow> True)"

definition tick_scheduled :: "'t tick_event list \<Rightarrow> bool" where
  "tick_scheduled tr =
     (case tr of EvSetTimeout _ _ # rest \<Rightarrow> list_all is_work rest | _ \<Rightarrow> False)"

text \<open>
  What a step of the scheduler must show: a firing begins with the scheduling of the next
  tick, and the end of a conversion is work only.
\<close>

definition step_trace_ok :: "'t sched_event \<Rightarrow> 't tick_event list \<Rightarrow> bool" where
  "step_trace_ok ev tr = (if is_firing ev then tick_scheduled tr else list_all is_work tr)"

text \<open>
  A tick that takes 500 ms, ten times the interval of the default configuration, and a
  supervisor whose hardware source holds a frame of 2 by 2.
\<close>

definition slow_tick :: "int tick_env" where
  "slow_tick =
     \<lparr>te_frameStart = 0, te_captureStart = 0, te_captureEnd = 1, te_sharpStart = 1,
      te_sharpEnd = 480, te_totalEnd = 500, te_dimensions = Some (2, 2),
      te_sharp = (\<lambda>_ _ _. Inl []), te_onFrameThrows = False, te_onStatsThrows = False,
      te_now = 500\<rparr>"

definition streaming_capture :: hybrid_capture where
  "streaming_capture =
     \<lparr>hc_ffmpegCapture =
        Some ((FFmpegCapture_new Linux 0)
                \<lparr>fc_ffmpeg := Some 1, fc_isRunning := True, fc_width := 2, fc_height := 2,
                 fc_bytesPerFrame := 4, fc_currentBuffer := Some [0, 128, 255, 64]\<rparr>),
      hc_softwareCapture = None, hc_activeCapture = Some ActiveFFmpeg,
      hc_mode = Some Hardware, hc_width = 2, hc_height = 2\<rparr>"

section \<open>Properties of the double arithmetic\<close>

text \<open>
  Rounding to nearest is monotone and leaves integers alone; \<open>round53\<close> rounds within
  the binade of its argument. From these: the operations on doubles are monotone on the
  non-negative operands the converter uses, and exact on integers up to \<open>2 ^ 53\<close>.
\<close>

lemma rne_rnd:
  assumes "0 < d"
  shows "rne n d = rnd (of_int n / of_int d)"
proof -
  let ?x = "of_int n / of_int d :: rat"
  have fl: "\<lfloor>?x\<rfloor> = n div d" by (rule floor_divide_of_int_eq)
  have dpos: "(0::rat) < of_int d" using assms by simp
  have "of_int n = of_int (n div d) * of_int d + (of_int (n mod d) :: rat)"
    by (metis of_int_add of_int_mult div_mult_mod_eq)
  then have fr: "?x - of_int (n div d) = of_int (n mod d) / of_int d"
    using dpos by (simp add: field_simps)
  have lt: "(of_int (n mod d) / of_int d < (1 / 2 :: rat)) = (2 * (n mod d) < d)"
  proof -
    have "(of_int (n mod d) / of_int d < (1 / 2 :: rat)) = ((of_int (2 * (n mod d)) :: rat) < of_int d)"
      using dpos by (simp add: field_simps)
    then show ?thesis by (simp only: of_int_less_iff)
  qed
  have gt: "((1 / 2 :: rat) < of_int (n mod d) / of_int d) = (d < 2 * (n mod d))"
  proof -
    have "((1 / 2 :: rat) < of_int (n mod d) / of_int d) = ((of_int d :: rat) < of_int (2 * (n mod d)))"
      using dpos by (simp add: field_simps)
    then show ?thesis by (simp only: of_int_less_iff)
  qed
  show ?thesis
    unfolding rne_def rnd_def Let_def fl fr lt gt ..
qed

lemma rnd_of_int: "rnd (of_int k) = k"
  by (simp add: rnd_def)

lemma rnd_bounds: "\<lfloor>x\<rfloor> \<le> rnd x \<and> rnd x \<le> \<lfloor>x\<rfloor> + 1"
  by (simp add: rnd_def Let_def)

lemma rnd_mono:
  assumes "x \<le> y"
  shows "rnd x \<le> rnd y"
proof (cases "\<lfloor>x\<rfloor> < \<lfloor>y\<rfloor>")
  case True
  have "rnd x \<le> \<lfloor>x\<rfloor> + 1" using rnd_bounds [of x] by simp
  also have "\<dots> \<le> \<lfloor>y\<rfloor>" using True by simp
  also have "\<dots> \<le> rnd y" using rnd_bounds [of y] by simp
  finally show ?thesis .
next
  case False
  moreover have "\<lfloor>x\<rfloor> \<le> \<lfloor>y\<rfloor>" using assms by (rule floor_mono)
  ultimately have eq: "\<lfloor>x\<rfloor> = \<lfloor>y\<rfloor>" by simp
  have "x - of_int \<lfloor>y\<rfloor> \<le> y - of_int \<lfloor>y\<rfloor>" using assms by simp
  then show ?thesis
    unfolding rnd_def Let_def eq by auto
qed

lemma powi_add: "(2::rat) powi (a + b) = 2 powi a * 2 powi b"
  by (rule power_int_add) simp

lemma powi_pos: "0 < (2::rat) powi a"
  by simp

lemma powi_le: "a \<le> b \<Longrightarrow> (2::rat) powi a \<le> 2 powi b"
  by (rule power_int_increasing) simp_all

lemma powi_less_imp: "(2::rat) powi a < 2 powi b \<Longrightarrow> a < b"
  using powi_le [of b a] by (cases "a < b") auto

lemma powi_nat: "0 \<le> a \<Longrightarrow> (2::rat) powi a = of_int (2 ^ nat a)"
  by (simp add: power_int_nonneg_exp)

lemma bitlen_rat_bounds:
  assumes "0 < n"
  shows "(2::rat) powi (bitlen n - 1) \<le> of_int n \<and> (of_int n :: rat) < 2 powi (bitlen n)"
proof -
  from bitlen_bounds [OF assms]
  have lo: "2 ^ nat (bitlen n - 1) \<le> n" and hi: "n < 2 ^ nat (bitlen n)" by simp_all
  have b1: "1 \<le> bitlen n"
    using bitlen_eq_zero_iff [of n] bitlen_nonneg [of n] assms by linarith
  have "(of_int (2 ^ nat (bitlen n - 1)) :: rat) \<le> of_int n"
    using lo by (simp only: of_int_le_iff)
  moreover have "(of_int n :: rat) < of_int (2 ^ nat (bitlen n))"
    using hi by (simp only: of_int_less_iff)
  ultimately show ?thesis
    using b1 by (simp add: powi_nat)
qed

lemma binade_test:
  assumes "0 < d"
  shows "(if 0 \<le> e then d * 2 ^ nat e \<le> n else d \<le> n * 2 ^ nat (- e)) =
         ((2::rat) powi e \<le> of_int n / of_int d)"
proof -
  have dpos: "(0::rat) < of_int d" using assms by simp
  have r: "((2::rat) powi e \<le> of_int n / of_int d) = ((2::rat) powi e * of_int d \<le> of_int n)"
    using dpos by (simp add: pos_le_divide_eq)
  show ?thesis
  proof (cases "0 \<le> e")
    case True
    have "(d * 2 ^ nat e \<le> n) = ((of_int (d * 2 ^ nat e) :: rat) \<le> of_int n)"
      by (simp only: of_int_le_iff)
    also have "\<dots> = ((2::rat) powi e * of_int d \<le> of_int n)"
      using True by (simp add: powi_nat mult.commute)
    finally show ?thesis using True r by simp
  next
    case False
    then have ne: "0 \<le> - e" by simp
    have inv: "(2::rat) powi e * 2 powi (- e) = 1"
      using powi_add [of e "- e"] by simp
    have "(d \<le> n * 2 ^ nat (- e)) = ((of_int d :: rat) \<le> of_int (n * 2 ^ nat (- e)))"
      by (simp only: of_int_le_iff)
    also have "\<dots> = ((of_int d :: rat) \<le> of_int n * 2 powi (- e))"
      using ne by (simp add: powi_nat)
    also have "\<dots> = ((2::rat) powi e * of_int d \<le> of_int n)"
    proof
      assume "(of_int d :: rat) \<le> of_int n * 2 powi (- e)"
      then have "2 powi e * of_int d \<le> 2 powi e * (of_int n * 2 powi (- e) :: rat)"
        by (intro mult_left_mono) simp_all
      also have "\<dots> = of_int n * (2 powi e * 2 powi (- e))" by (simp add: mult_ac)
      finally show "(2::rat) powi e * of_int d \<le> of_int n" by (simp add: inv)
    next
      assume a: "(2::rat) powi e * of_int d \<le> of_int n"
      have "(of_int d :: rat) = (2 powi e * 2 powi (- e)) * of_int d" by (simp only: inv mult_1)
      also have "\<dots> = 2 powi (- e) * (2 powi e * of_int d)" by (simp only: mult_ac)
      also have "\<dots> \<le> 2 powi (- e) * of_int n"
        using a by (rule mult_left_mono) simp
      also have "\<dots> = of_int n * 2 powi (- e)" by (simp only: mult.commute)
      finally show "(of_int d :: rat) \<le> of_int n * 2 powi (- e)" .
    qed
    finally show ?thesis using False r by simp
  qed
qed

lemma binade_bounds:
  assumes "0 < n" and "0 < d"
  shows "(2::rat) powi (binade n d) \<le> of_int n / of_int d \<and>
         (of_int n / of_int d :: rat) < 2 powi (binade n d + 1)"
proof -
  let ?x = "of_int n / of_int d :: rat"
  let ?e = "bitlen n - bitlen d"
  have dpos: "(0::rat) < of_int d" using assms by simp
  note bn = bitlen_rat_bounds [OF assms(1)]
  note bd = bitlen_rat_bounds [OF assms(2)]
  have hi: "?x < 2 powi (?e + 1)"
  proof -
    have "(of_int n :: rat) < 2 powi (bitlen n)" using bn by simp
    also have "\<dots> = 2 powi (?e + 1) * 2 powi (bitlen d - 1)"
      using powi_add [of "?e + 1" "bitlen d - 1"] by simp
    also have "\<dots> \<le> 2 powi (?e + 1) * of_int d"
      using bd by (intro mult_left_mono) simp_all
    finally show ?thesis using dpos by (simp add: pos_divide_less_eq)
  qed
  have lo: "2 powi (?e - 1) \<le> ?x"
  proof -
    have "2 powi (?e - 1) * (of_int d :: rat) \<le> 2 powi (?e - 1) * 2 powi (bitlen d)"
      using bd by (intro mult_left_mono) simp_all
    also have "\<dots> = 2 powi (bitlen n - 1)"
      using powi_add [of "?e - 1" "bitlen d"] by simp
    also have "\<dots> \<le> of_int n" using bn by simp
    finally show ?thesis using dpos by (simp add: pos_le_divide_eq)
  qed
  show ?thesis
  proof (cases "(2::rat) powi ?e \<le> ?x")
    case True
    then have "binade n d = ?e"
      by (simp add: binade_def Let_def binade_test [OF assms(2)])
    with True hi show ?thesis by simp
  next
    case False
    then have "binade n d = ?e - 1"
      by (simp add: binade_def Let_def binade_test [OF assms(2)])
    with False lo show ?thesis by simp
  qed
qed

lemma powi_cancel: "(2::rat) powi a * 2 powi (- a) = 1"
  using powi_add [of a "- a"] by simp

lemma div_powi_minus: "a / (b * (2::rat) powi (- s)) = a / b * 2 powi s"
  by (simp add: power_int_minus field_simps)

lemma powi_join: "(2::rat) powi a * 2 powi b = 2 powi c" if "a + b = c"
  using powi_add [of a b] that by simp

lemma round53_val:
  assumes "0 < n" and "0 < d"
  shows "dval (round53 n d) =
           of_int (rnd (of_int n / of_int d * 2 powi (52 - binade n d))) *
           2 powi (binade n d - 52)"
proof -
  let ?s = "52 - binade n d"
  have e: "- ?s = binade n d - 52" by simp
  show ?thesis
  proof (cases "0 \<le> ?s")
    case True
    have "rne (n * 2 ^ nat ?s) d = rnd (of_int (n * 2 ^ nat ?s) / of_int d)"
      using assms(2) by (rule rne_rnd)
    also have "(of_int (n * 2 ^ nat ?s) / of_int d :: rat) = of_int n / of_int d * 2 powi ?s"
      using True by (simp add: powi_nat)
    finally show ?thesis
      using True by (simp add: round53_def Let_def dval_def e)
  next
    case False
    then have ns: "0 \<le> - ?s" by simp
    have dp: "0 < d * 2 ^ nat (- ?s)" using assms(2) by simp
    have "rne n (d * 2 ^ nat (- ?s)) = rnd (of_int n / of_int (d * 2 ^ nat (- ?s)))"
      using dp by (rule rne_rnd)
    also have "(of_int n / of_int (d * 2 ^ nat (- ?s)) :: rat) =
               of_int n / (of_int d * 2 powi (- ?s))"
      using ns by (simp add: powi_nat)
    also have "\<dots> = of_int n / of_int d * 2 powi ?s"
      by (rule div_powi_minus)
    finally show ?thesis
      using False by (simp add: round53_def Let_def dval_def e)
  qed
qed

lemma round53_range:
  assumes "0 < n" and "0 < d"
  shows "(2::rat) powi (binade n d) \<le> dval (round53 n d) \<and>
         dval (round53 n d) \<le> 2 powi (binade n d + 1)"
proof -
  let ?e = "binade n d"
  let ?x = "of_int n / of_int d :: rat"
  let ?y = "?x * 2 powi (52 - ?e)"
  note b = binade_bounds [OF assms]
  have ylo: "of_int (2 ^ 52) \<le> ?y"
  proof -
    have "(of_int (2 ^ 52) :: rat) = 2 powi 52" by simp
    also have "\<dots> = 2 powi ?e * 2 powi (52 - ?e)"
      by (rule powi_join [symmetric]) simp
    also have "\<dots> \<le> ?y" using b by (intro mult_right_mono) simp_all
    finally show ?thesis .
  qed
  have yhi: "?y \<le> of_int (2 ^ 53)"
  proof -
    have "?y \<le> 2 powi (?e + 1) * 2 powi (52 - ?e)"
      using b by (intro mult_right_mono) simp_all
    also have "\<dots> = 2 powi 53"
      by (rule powi_join) simp
    also have "\<dots> = of_int (2 ^ 53)" by simp
    finally show ?thesis .
  qed
  have rlo: "2 ^ 52 \<le> rnd ?y" using rnd_mono [OF ylo] by (simp only: rnd_of_int)
  have rhi: "rnd ?y \<le> 2 ^ 53" using rnd_mono [OF yhi] by (simp only: rnd_of_int)
  have v: "dval (round53 n d) = of_int (rnd ?y) * 2 powi (?e - 52)"
    using assms by (rule round53_val)
  have "(2::rat) powi ?e = 2 powi 52 * 2 powi (?e - 52)"
    by (rule powi_join [symmetric]) simp
  also have "\<dots> = of_int (2 ^ 52) * 2 powi (?e - 52)" by simp
  also have "\<dots> \<le> of_int (rnd ?y) * 2 powi (?e - 52)"
    using rlo by (intro mult_right_mono) (simp_all only: of_int_le_iff zero_le_power_int zero_le_numeral)
  finally have lo: "(2::rat) powi ?e \<le> dval (round53 n d)" by (simp only: v)
  have "of_int (rnd ?y) * 2 powi (?e - 52) \<le> (of_int (2 ^ 53) :: rat) * 2 powi (?e - 52)"
    using rhi by (intro mult_right_mono) (simp_all only: of_int_le_iff zero_le_power_int zero_le_numeral)
  also have "\<dots> = 2 powi 53 * 2 powi (?e - 52)" by simp
  also have "\<dots> = 2 powi (?e + 1)"
    by (rule powi_join) simp
  finally have hi: "dval (round53 n d) \<le> 2 powi (?e + 1)" by (simp only: v)
  from lo hi show ?thesis ..
qed

lemma round53_mono:
  assumes "0 < n1" and "0 < d1" and "0 < n2" and "0 < d2"
    and "(of_int n1 / of_int d1 :: rat) \<le> of_int n2 / of_int d2"
  shows "dval (round53 n1 d1) \<le> dval (round53 n2 d2)"
proof -
  let ?e1 = "binade n1 d1" and ?e2 = "binade n2 d2"
  let ?x1 = "of_int n1 / of_int d1 :: rat" and ?x2 = "of_int n2 / of_int d2 :: rat"
  note b1 = binade_bounds [OF assms(1,2)]
  note b2 = binade_bounds [OF assms(3,4)]
  have "(2::rat) powi ?e1 < 2 powi (?e2 + 1)"
    using b1 b2 assms(5) by linarith
  then have le: "?e1 \<le> ?e2" using powi_less_imp [of ?e1 "?e2 + 1"] by simp
  show ?thesis
  proof (cases "?e1 = ?e2")
    case True
    have "?x1 * 2 powi (52 - ?e2) \<le> ?x2 * 2 powi (52 - ?e2)"
      using assms(5) by (intro mult_right_mono) simp_all
    then have "rnd (?x1 * 2 powi (52 - ?e2)) \<le> rnd (?x2 * 2 powi (52 - ?e2))"
      by (rule rnd_mono)
    then have "(of_int (rnd (?x1 * 2 powi (52 - ?e2))) :: rat) * 2 powi (?e2 - 52) \<le>
               of_int (rnd (?x2 * 2 powi (52 - ?e2))) * 2 powi (?e2 - 52)"
      by (intro mult_right_mono) (simp_all only: of_int_le_iff zero_le_power_int zero_le_numeral)
    then show ?thesis
      using round53_val [OF assms(1,2)] round53_val [OF assms(3,4)] True by simp
  next
    case False
    with le have "?e1 + 1 \<le> ?e2" by simp
    then have "(2::rat) powi (?e1 + 1) \<le> 2 powi ?e2" by (rule powi_le)
    with round53_range [OF assms(1,2)] round53_range [OF assms(3,4)]
    show ?thesis by linarith
  qed
qed

lemma round53_int:
  assumes "0 < k" and "k \<le> 2 ^ 53"
  shows "dval (round53 k 1) = of_int k"
proof -
  let ?e = "binade k 1"
  have b: "(2::rat) powi ?e \<le> of_int k" "(of_int k :: rat) < 2 powi (?e + 1)"
    using binade_bounds [OF assms(1), of 1] by simp_all
  have v: "dval (round53 k 1) = of_int (rnd (of_int k * 2 powi (52 - ?e))) * 2 powi (?e - 52)"
    using round53_val [OF assms(1), of 1] by simp
  show ?thesis
  proof (cases "?e \<le> 52")
    case True
    then have "(of_int k :: rat) * 2 powi (52 - ?e) = of_int (k * 2 ^ nat (52 - ?e))"
      by (simp add: powi_nat)
    then have "rnd (of_int k * 2 powi (52 - ?e)) = k * 2 ^ nat (52 - ?e)"
      by (simp only: rnd_of_int)
    then have "dval (round53 k 1) = of_int (k * 2 ^ nat (52 - ?e)) * 2 powi (?e - 52)"
      by (simp only: v)
    also have "\<dots> = of_int k * (2 powi (52 - ?e) * 2 powi (- (52 - ?e)))"
      using True by (simp add: powi_nat)
    finally show ?thesis by (simp only: powi_cancel mult_1_right)
  next
    case False
    have "(of_int k :: rat) \<le> of_int (2 ^ 53)" using assms(2) by (simp only: of_int_le_iff)
    then have "(2::rat) powi ?e \<le> 2 powi 53" using b(1) by simp
    then have "\<not> (2::rat) powi 53 < 2 powi ?e" by simp
    then have "\<not> 53 < ?e"
      using power_int_strict_increasing [of 53 ?e "2::rat"] by auto
    with False have e: "?e = 53" by simp
    have "(of_int (2 ^ 53) :: rat) \<le> of_int k" using b(1) e by simp
    then have "2 ^ 53 \<le> k" by (simp only: of_int_le_iff)
    with assms(2) have k: "k = 2 ^ 53" by simp
    have "(of_int k :: rat) * 2 powi (52 - ?e) = of_int k * 2 powi (- 1)"
      by (simp only: e) simp
    also have "\<dots> = of_int (2 ^ 52)"
      by (simp add: k power_int_minus)
    finally have "rnd (of_int k * 2 powi (52 - ?e)) = 2 ^ 52" by (simp only: rnd_of_int)
    then have "dval (round53 k 1) = of_int (2 ^ 52) * 2 powi (?e - 52)" by (simp only: v)
    also have "\<dots> = of_int (2 ^ 52) * 2 powi 1" by (simp only: e) simp
    also have "\<dots> = of_int k" by (simp add: k)
    finally show ?thesis .
  qed
qed

lemma powi_not_le_zero: "\<not> (2::rat) powi a \<le> 0"
  by (simp add: not_le)

lemma dval_nonneg_iff: "(0 \<le> dval x) = (0 \<le> mant x)"
  by (auto simp: dval_def zero_le_mult_iff powi_not_le_zero)

lemma round53_pos:
  assumes "0 < n" and "0 < d"
  shows "0 < dval (round53 n d)"
proof -
  have "(0::rat) < 2 powi (binade n d)" by simp
  also have "\<dots> \<le> dval (round53 n d)" using round53_range [OF assms] by simp
  finally show ?thesis .
qed

lemma to_double_nonneg:
  assumes "0 \<le> n" and "0 < d"
  shows "0 \<le> dval (to_double n d)"
proof (cases "n = 0")
  case True
  then show ?thesis by (simp add: to_double_def dval_def)
next
  case False
  with assms(1) have "0 < n" by simp
  from round53_pos [OF this assms(2)] \<open>0 < n\<close> show ?thesis
    by (simp add: to_double_def)
qed

lemma to_double_mono:
  assumes "0 \<le> n1" and "0 < d1" and "0 < d2"
    and "(of_int n1 / of_int d1 :: rat) \<le> of_int n2 / of_int d2"
  shows "dval (to_double n1 d1) \<le> dval (to_double n2 d2)"
proof -
  have q1: "(0::rat) \<le> of_int n1 / of_int d1" using assms(1,2) by simp
  have n2: "0 \<le> n2"
  proof (rule ccontr)
    assume "\<not> 0 \<le> n2"
    then have "(of_int n2 / of_int d2 :: rat) < 0"
      using assms(3) by (simp add: divide_neg_pos)
    with q1 assms(4) show False by linarith
  qed
  show ?thesis
  proof (cases "n1 = 0")
    case True
    then have "dval (to_double n1 d1) = 0" by (simp add: to_double_def dval_def)
    with to_double_nonneg [OF n2 assms(3)] show ?thesis by simp
  next
    case False
    with assms(1) have p1: "0 < n1" by simp
    then have "(0::rat) < of_int n1 / of_int d1" using assms(2) by simp
    with assms(4) have "(0::rat) < of_int n2 / of_int d2" by linarith
    then have p2: "0 < n2" using assms(3) n2 by (cases "n2 = 0") simp_all
    from round53_mono [OF p1 assms(2) p2 assms(3) assms(4)] p1 p2
    show ?thesis by (simp add: to_double_def)
  qed
qed

lemma to_double_int:
  assumes "0 \<le> k" and "k \<le> 2 ^ 53"
  shows "dval (to_double k 1) = of_int k"
proof (cases "k = 0")
  case True
  then show ?thesis by (simp add: to_double_def dval_def)
next
  case False
  with assms(1) have "0 < k" by simp
  from round53_int [OF this assms(2)] \<open>0 < k\<close> show ?thesis
    by (simp add: to_double_def)
qed

lemma js_mul_as:
  "\<exists>n d. js_mul x k = to_double n d \<and> 0 < d \<and>
     (of_int n / of_int d :: rat) = dval x * of_int k \<and>
     (0 \<le> mant x \<and> 0 \<le> k \<longrightarrow> 0 \<le> n)"
proof (cases "0 \<le> expo x")
  case True
  have "(of_int (mant x * k * 2 ^ nat (expo x)) / of_int 1 :: rat) = dval x * of_int k"
    using True by (simp add: dval_def powi_nat mult_ac)
  moreover have "js_mul x k = to_double (mant x * k * 2 ^ nat (expo x)) 1"
    using True by (simp add: js_mul_def)
  moreover have "0 \<le> mant x \<and> 0 \<le> k \<longrightarrow> 0 \<le> mant x * k * 2 ^ nat (expo x)"
    by simp
  ultimately show ?thesis by (intro exI [of _ "mant x * k * 2 ^ nat (expo x)"] exI [of _ 1]) simp
next
  case False
  then have ne: "0 \<le> - expo x" by simp
  have "(of_int (mant x * k) / of_int (2 ^ nat (- expo x)) :: rat) =
        of_int (mant x * k) / (1 * 2 powi (- expo x))"
    using ne by (simp add: powi_nat)
  also have "\<dots> = of_int (mant x * k) / 1 * 2 powi (expo x)"
    by (rule div_powi_minus)
  also have "\<dots> = dval x * of_int k" by (simp add: dval_def mult_ac)
  finally have q: "(of_int (mant x * k) / of_int (2 ^ nat (- expo x)) :: rat) =
        dval x * of_int k" .
  have "js_mul x k = to_double (mant x * k) (2 ^ nat (- expo x))"
    using False by (simp add: js_mul_def)
  moreover have "(0::int) < 2 ^ nat (- expo x)" by simp
  moreover have "0 \<le> mant x \<and> 0 \<le> k \<longrightarrow> 0 \<le> mant x * k" by simp
  ultimately show ?thesis using q by blast
qed

lemma js_mul_mono:
  assumes "0 \<le> mant x1" and "0 \<le> k" and "dval x1 \<le> dval x2"
  shows "dval (js_mul x1 k) \<le> dval (js_mul x2 k)"
proof -
  from js_mul_as [of x1 k] assms(1,2)
  obtain n1 d1 where a1: "js_mul x1 k = to_double n1 d1" "0 < d1"
      "(of_int n1 / of_int d1 :: rat) = dval x1 * of_int k" "0 \<le> n1"
    by blast
  from js_mul_as [of x2 k]
  obtain n2 d2 where a2: "js_mul x2 k = to_double n2 d2" "0 < d2"
      "(of_int n2 / of_int d2 :: rat) = dval x2 * of_int k"
    by blast
  have "dval x1 * of_int k \<le> dval x2 * of_int k"
    using assms(2,3) by (intro mult_right_mono) simp_all
  then have "(of_int n1 / of_int d1 :: rat) \<le> of_int n2 / of_int d2"
    by (simp only: a1(3) a2(3))
  from to_double_mono [OF a1(4) a1(2) a2(2) this] show ?thesis
    by (simp only: a1(1) a2(1))
qed

lemma js_mul_range:
  assumes "0 \<le> mant x" and "dval x \<le> 1" and "0 \<le> k" and "k \<le> 2 ^ 53"
  shows "0 \<le> dval (js_mul x k) \<and> dval (js_mul x k) \<le> of_int k"
proof -
  from js_mul_as [of x k] assms(1,3)
  obtain n d where a: "js_mul x k = to_double n d" "0 < d"
      "(of_int n / of_int d :: rat) = dval x * of_int k" "0 \<le> n"
    by blast
  have "dval x * of_int k \<le> 1 * of_int k"
    using assms(2,3) by (intro mult_right_mono) simp_all
  then have "(of_int n / of_int d :: rat) \<le> of_int k / of_int 1"
    by (simp add: a(3))
  from to_double_mono [OF a(4) a(2) _ this] to_double_int [OF assms(3,4)]
  have "dval (js_mul x k) \<le> of_int k" by (simp add: a(1))
  with to_double_nonneg [OF a(4) a(2)] show ?thesis by (simp add: a(1))
qed

lemma js_floor_val: "js_floor x = \<lfloor>dval x\<rfloor>"
proof (cases "0 \<le> expo x")
  case True
  then have "dval x = of_int (mant x * 2 ^ nat (expo x))"
    by (simp add: dval_def powi_nat)
  then have "\<lfloor>dval x\<rfloor> = mant x * 2 ^ nat (expo x)" by (simp only: floor_of_int)
  with True show ?thesis by (simp add: js_floor_def)
next
  case False
  then have ne: "0 \<le> - expo x" by simp
  have "dval x = of_int (mant x) / (1 * 2 powi (- expo x)) "
    unfolding div_powi_minus by (simp add: dval_def)
  also have "\<dots> = of_int (mant x) / of_int (2 ^ nat (- expo x))"
    using ne by (simp add: powi_nat)
  finally have "\<lfloor>dval x\<rfloor> = mant x div 2 ^ nat (- expo x)"
    by (simp only: floor_divide_of_int_eq)
  with False show ?thesis by (simp add: js_floor_def)
qed

lemma js_div_255_range:
  assumes "0 \<le> a" and "a \<le> 255"
  shows "0 \<le> mant (js_div a 255) \<and> dval (js_div a 255) \<le> 1"
proof -
  have "(of_int a / of_int 255 :: rat) \<le> of_int 1 / of_int 1"
    using assms(2) by simp
  from to_double_mono [OF assms(1) _ _ this] to_double_int [of 1]
  have "dval (js_div a 255) \<le> 1" by (simp add: js_div_def)
  moreover have "0 \<le> dval (js_div a 255)"
    using to_double_nonneg [OF assms(1), of 255] by (simp add: js_div_def)
  ultimately show ?thesis by (simp add: dval_nonneg_iff)
qed

lemma js_div_255_mono:
  assumes "0 \<le> a1" and "a1 \<le> a2"
  shows "dval (js_div a1 255) \<le> dval (js_div a2 255)"
proof -
  have "(of_int a1 / of_int 255 :: rat) \<le> of_int a2 / of_int 255"
    using assms(2) by (simp add: divide_right_mono)
  from to_double_mono [OF assms(1) _ _ this] show ?thesis by (simp add: js_div_def)
qed

lemma byte_range:
  fixes b :: byte
  shows "0 \<le> uint b" and "uint b \<le> 255"
  using uint_lt2p [of b] by simp_all

lemma glyphIndex_bounds:
  assumes "1 \<le> L" and "int L - 1 \<le> 2 ^ 53"
  shows "0 \<le> glyphIndex b L \<and> glyphIndex b L \<le> int L - 1"
proof -
  have k: "0 \<le> int L - 1" using assms(1) by simp
  from js_div_255_range [OF byte_range [of b]]
  have x: "0 \<le> mant (js_div (uint b) 255)" "dval (js_div (uint b) 255) \<le> 1" by blast+
  let ?y = "dval (js_mul (js_div (uint b) 255) (int L - 1))"
  from js_mul_range [OF x k assms(2)]
  have y: "0 \<le> ?y" "?y \<le> of_int (int L - 1)"
    by blast+
  have "0 \<le> \<lfloor>?y\<rfloor>" using y(1) by (simp only: zero_le_floor)
  moreover have "\<lfloor>?y\<rfloor> \<le> \<lfloor>of_int (int L - 1) :: rat\<rfloor>"
    using y(2) by (rule floor_mono)
  then have "\<lfloor>?y\<rfloor> \<le> int L - 1" by (simp only: floor_of_int)
  ultimately show ?thesis by (simp only: glyphIndex_def js_floor_val)
qed

lemma glyphIndex_mono:
  assumes "1 \<le> L" and "uint b1 \<le> uint b2"
  shows "glyphIndex b1 L \<le> glyphIndex b2 L"
proof -
  have k: "0 \<le> int L - 1" using assms(1) by simp
  from js_div_255_range [OF byte_range [of b1]]
  have m: "0 \<le> mant (js_div (uint b1) 255)" by blast
  from js_mul_mono [OF m k js_div_255_mono [OF byte_range(1) assms(2)]]
  show ?thesis by (simp only: glyphIndex_def js_floor_val floor_mono)
qed

text \<open>
  Each rounding is off by at most the fraction \<open>2 ^ -53\<close> of what it rounds. After the
  two roundings of the index the product is closer than \<open>1 / 255\<close> to the exact product,
  whose fractional part is a multiple of \<open>1 / 255\<close>: the index is the exact floor, or one
  less when the exact product is an integer and the computed one falls below it.
\<close>


lemma rnd_error: "\<bar>of_int (rnd x) - x\<bar> \<le> 1 / 2"
proof -
  have "of_int \<lfloor>x\<rfloor> \<le> x" "x < of_int \<lfloor>x\<rfloor> + 1" by linarith+
  then show ?thesis by (auto simp: rnd_def Let_def abs_le_iff)
qed

lemma scaled_error:
  fixes P q y v :: rat
  assumes "0 < P" and "q = y * P" and "v = of_int r * P" and "\<bar>of_int r - y\<bar> \<le> 1 / 2"
  shows "\<bar>v - q\<bar> \<le> 1 / 2 * P"
proof -
  have "v - q = (of_int r - y) * P" by (simp add: assms(2,3) algebra_simps)
  then have "\<bar>v - q\<bar> = \<bar>of_int r - y\<bar> * P" using assms(1) by (simp add: abs_mult)
  also have "\<dots> \<le> 1 / 2 * P" using assms(4,1) by (intro mult_right_mono) simp_all
  finally show ?thesis .
qed

lemma round53_error:
  assumes "0 < n" and "0 < d"
  shows "\<bar>dval (round53 n d) - of_int n / of_int d\<bar> \<le> of_int n / of_int d / 2 ^ 53"
proof -
  let ?q = "of_int n / of_int d :: rat"
  let ?e = "binade n d"
  let ?y = "?q * 2 powi (52 - ?e)"
  let ?P = "(2::rat) powi (?e - 52)"
  have Ppos: "0 < ?P" by simp
  have one: "(2::rat) powi (52 - ?e) * ?P = 1"
    using powi_join [of "52 - ?e" "?e - 52" 0] by simp
  have "?y * ?P = ?q * ((2::rat) powi (52 - ?e) * ?P)" by (simp only: mult.assoc)
  then have q: "?q = ?y * ?P" by (simp only: one mult_1_right)
  have v: "dval (round53 n d) = of_int (rnd ?y) * ?P"
    using assms by (rule round53_val)
  have "\<bar>dval (round53 n d) - ?q\<bar> \<le> 1 / 2 * ?P"
    using Ppos q v rnd_error by (rule scaled_error)
  also have "\<dots> = 2 powi ?e / 2 ^ 53"
  proof -
    have "(2::rat) powi ?e = 2 powi 52 * ?P" by (rule powi_join [symmetric]) simp
    then show ?thesis by simp
  qed
  also have "\<dots> \<le> ?q / 2 ^ 53"
    using binade_bounds [OF assms] by (intro divide_right_mono) simp_all
  finally show ?thesis .
qed

lemma two_roundings:
  fixes x y A K u :: rat
  assumes "\<bar>x - A\<bar> \<le> A * u" and "\<bar>y - x * K\<bar> \<le> x * K * u"
    and "0 \<le> K" and "0 \<le> u"
  shows "\<bar>y - A * K\<bar> \<le> A * K * (u * (2 + u))"
proof -
  have "x * K - A * K = (x - A) * K" by (simp add: algebra_simps)
  then have "\<bar>x * K - A * K\<bar> = \<bar>x - A\<bar> * K" using assms(3) by (simp add: abs_mult)
  also have "\<dots> \<le> (A * u) * K" using assms(1,3) by (rule mult_right_mono)
  finally have xk: "\<bar>x * K - A * K\<bar> \<le> A * K * u" by (simp add: mult_ac)
  then have "x * K \<le> A * K + A * K * u" by linarith
  then have "x * K * u \<le> (A * K + A * K * u) * u"
    using assms(4) by (rule mult_right_mono)
  with assms(2) have "\<bar>y - x * K\<bar> \<le> (A * K + A * K * u) * u" by linarith
  with xk have "\<bar>y - A * K\<bar> \<le> (A * K + A * K * u) * u + A * K * u" by linarith
  also have "\<dots> = A * K * (u * (2 + u))" by (simp add: algebra_simps)
  finally show ?thesis .
qed

lemma to_double_error:
  assumes "0 \<le> n" and "0 < d"
  shows "\<bar>dval (to_double n d) - of_int n / of_int d\<bar> \<le> of_int n / of_int d / 2 ^ 53"
proof (cases "n = 0")
  case True
  then show ?thesis by (simp add: to_double_def dval_def)
next
  case False
  with assms(1) have "0 < n" by simp
  from round53_error [OF this assms(2)] \<open>0 < n\<close> show ?thesis
    by (simp add: to_double_def)
qed

lemma index_near_exact:
  assumes a: "0 \<le> a" "a \<le> 255" and k: "0 \<le> k" and kb0: "k \<le> 2 ^ 40"
  shows "a * k div 255 - 1 \<le> js_floor (js_mul (js_div a 255) k) \<and>
         js_floor (js_mul (js_div a 255) k) \<le> a * k div 255"
proof -
  let ?u = "1 / 2 ^ 53 :: rat"
  let ?A = "of_int a / 255 :: rat"
  let ?K = "of_int k :: rat"
  let ?P = "?A * ?K"
  let ?s = "a * k div 255"
  let ?x = "dval (js_div a 255)"
  have xerr: "\<bar>?x - ?A\<bar> \<le> ?A * ?u"
    using to_double_error [OF a(1), of 255] by (simp add: js_div_def)
  from js_div_255_range [OF a] have m: "0 \<le> mant (js_div a 255)" by blast
  from js_mul_as [of "js_div a 255" k] m k
  obtain n d where nd: "js_mul (js_div a 255) k = to_double n d" "0 < d"
      "(of_int n / of_int d :: rat) = ?x * ?K" "0 \<le> n"
    by blast
  let ?y = "dval (js_mul (js_div a 255) k)"
  have yerr: "\<bar>?y - ?x * ?K\<bar> \<le> ?x * ?K * ?u"
    using to_double_error [OF nd(4,2)] by (simp add: nd(1,3))
  have kr: "0 \<le> ?K" using k by simp
  have A0: "0 \<le> ?A" "?A \<le> 1" using a by simp_all
  have Pk: "?P \<le> ?K"
    using mult_right_mono [OF A0(2) kr] by simp
  have P0: "0 \<le> ?P" using A0(1) kr by simp
  have kb: "?K \<le> 2 ^ 40"
  proof -
    have "?K \<le> of_int (2 ^ 40)" using kb0 by (simp only: of_int_le_iff)
    then show ?thesis by simp
  qed
  have close: "\<bar>?y - ?P\<bar> < 1 / 255"
  proof -
    have "\<bar>?y - ?P\<bar> \<le> ?P * (?u * (2 + ?u))"
      using xerr yerr kr by (rule two_roundings) simp
    also have "\<dots> \<le> 2 ^ 40 * (?u * (2 + ?u))"
      using Pk kb by (intro mult_right_mono) simp_all
    also have "\<dots> < 1 / 255" by simp
    finally show ?thesis .
  qed
  have Pq: "?P = of_int (a * k) / of_int 255" by simp
  have fl: "\<lfloor>?P\<rfloor> = ?s"
    unfolding Pq by (rule floor_divide_of_int_eq)
  have frac: "?P \<le> of_int ?s + 254 / 255"
  proof -
    have "a * k = ?s * 255 + a * k mod 255" by simp
    moreover have "a * k mod 255 \<le> 254" using pos_mod_bound [of 255 "a * k"] by simp
    ultimately have "a * k \<le> ?s * 255 + 254" by linarith
    then have "(of_int (a * k) :: rat) \<le> of_int (?s * 255 + 254)"
      by (simp only: of_int_le_iff)
    then show ?thesis unfolding Pq by (simp add: field_simps)
  qed
  have lo: "of_int ?s \<le> ?P" using fl by (metis of_int_floor_le)
  have "?y < of_int ?s + 1" using close frac by (simp only: abs_less_iff) linarith
  then have "?y < of_int (?s + 1)" by simp
  then have "\<lfloor>?y\<rfloor> < ?s + 1" by (simp only: floor_less_iff)
  then have up: "\<lfloor>?y\<rfloor> \<le> ?s" by simp
  have "of_int ?s - 1 < ?y" using close lo by (simp only: abs_less_iff) linarith
  then have "of_int (?s - 1) \<le> ?y" by simp
  then have "?s - 1 \<le> \<lfloor>?y\<rfloor>" by (simp only: le_floor_iff)
  with up show ?thesis by (simp only: js_floor_val)
qed

lemma glyphIndex_near_exact:
  assumes "1 \<le> L" and "int L - 1 \<le> 2 ^ 40"
  shows "spec_glyphIndex b L - 1 \<le> glyphIndex b L \<and> glyphIndex b L \<le> spec_glyphIndex b L"
proof -
  have k: "0 \<le> int L - 1" using assms(1) by simp
  from index_near_exact [OF byte_range [of b] k assms(2)]
  show ?thesis by (simp only: glyphIndex_def spec_glyphIndex_def)
qed

text \<open>Three doubles that are well known: a third, a tenth, two thirds.\<close>

lemma double_known_values:
  "js_div 1 3 = Dyadic 6004799503160661 (- 54)"
  "js_div 1 10 = Dyadic 7205759403792794 (- 56)"
  "js_div 2 3 = Dyadic 6004799503160661 (- 53)"
  by code_simp+

section \<open>The demultiplexer of the hardware source\<close>

text \<open>
  With a positive frame length within the buffer, the two slices of the loop are the first
  \<open>n\<close> bytes and the rest.
\<close>


lemma buf_slice_take: "n \<le> length b \<Longrightarrow> buf_slice b 0 (int n) = take n b"
  by (simp add: buf_slice_def slice_index_def)

lemma buf_slice_from_drop: "n \<le> length b \<Longrightarrow> buf_slice_from b (int n) = drop n b"
  by (simp add: buf_slice_from_def slice_index_def)

lemma stream_frames_short: "length xs < n \<Longrightarrow> stream_frames n xs = []"
  by (simp add: stream_frames_def)

lemma stream_rest_short: "length xs < n \<Longrightarrow> stream_rest n xs = xs"
  by (simp add: stream_rest_def)

lemma div_step: "0 < n \<Longrightarrow> n \<le> m \<Longrightarrow> m div n = Suc ((m - n) div n)" for m n :: nat
  by (simp add: le_div_geq)

lemma stream_frames_step:
  assumes "0 < n" and "n \<le> length xs"
  shows "stream_frames n xs = take n xs # stream_frames n (drop n xs)"
proof -
  have d: "length xs div n = Suc ((length xs - n) div n)"
    using assms by (rule div_step)
  have "map (\<lambda>j. take n (drop (j * n) xs)) [0..<Suc m] =
        take n xs # map (\<lambda>j. take n (drop (j * n) (drop n xs))) [0..<m]" for m
    by (simp add: map_upt_Suc add.commute del: upt_Suc)
  then show ?thesis
    by (simp add: stream_frames_def d del: upt_Suc)
qed

lemma stream_rest_step:
  assumes "0 < n" and "n \<le> length xs"
  shows "stream_rest n xs = stream_rest n (drop n xs)"
proof -
  have d: "length xs div n = Suc ((length xs - n) div n)"
    using assms by (rule div_step)
  show ?thesis by (simp add: stream_rest_def d add.commute)
qed

lemma stream_rest_length: "0 < n \<Longrightarrow> length (stream_rest n xs) = length xs mod n"
  by (simp add: stream_rest_def minus_div_mult_eq_mod)

lemma extractFrames_done:
  "\<not> fc_bytesPerFrame s \<le> int (length (fc_incompleteBuffer s)) \<Longrightarrow>
   extractFrames clk i s pub = Some (s, i, pub)"
  by (subst extractFrames.simps) simp

lemma extractFrames_step:
  assumes "fc_bytesPerFrame s = int n" and "n \<le> length (fc_incompleteBuffer s)"
  shows "\<exists>s2. extractFrames clk i s pub =
            extractFrames clk (i + 2) s2 (pub @ [take n (fc_incompleteBuffer s)]) \<and>
          fc_incompleteBuffer s2 = drop n (fc_incompleteBuffer s) \<and>
          fc_currentBuffer s2 = Some (take n (fc_incompleteBuffer s)) \<and>
          fc_bytesPerFrame s2 = int n \<and> fc_width s2 = fc_width s \<and>
          fc_height s2 = fc_height s \<and> fc_isRunning s2 = fc_isRunning s \<and>
          fc_ffmpeg s2 = fc_ffmpeg s"
  using assms
  apply (subst extractFrames.simps)
  apply (simp add: Let_def buf_slice_take buf_slice_from_drop)
  apply (intro conjI impI)
   apply (rule exI, rule conjI, rule refl, simp)
  apply (rule exI, rule conjI, rule refl, simp)
  done

lemma extractFrames_result:
  assumes "fc_bytesPerFrame s = int n" and "0 < n"
    and "length (fc_incompleteBuffer s) div n = k"
  shows "\<exists>s'. extractFrames clk i s pub =
            Some (s', i + 2 * k, pub @ stream_frames n (fc_incompleteBuffer s)) \<and>
          fc_incompleteBuffer s' = stream_rest n (fc_incompleteBuffer s) \<and>
          fc_bytesPerFrame s' = int n \<and> fc_width s' = fc_width s \<and>
          fc_height s' = fc_height s \<and> fc_isRunning s' = fc_isRunning s \<and>
          fc_ffmpeg s' = fc_ffmpeg s \<and>
          fc_currentBuffer s' =
            (if k = 0 then fc_currentBuffer s
             else Some (last (stream_frames n (fc_incompleteBuffer s))))"
  using assms
proof (induction k arbitrary: s i pub)
  case 0
  then have short: "length (fc_incompleteBuffer s) < n" by (simp add: div_eq_0_iff)
  with 0 have "\<not> fc_bytesPerFrame s \<le> int (length (fc_incompleteBuffer s))" by simp
  then have "extractFrames clk i s pub = Some (s, i, pub)" by (rule extractFrames_done)
  with 0 short show ?case by (simp add: stream_frames_short stream_rest_short)
next
  case (Suc k)
  let ?b = "fc_incompleteBuffer s"
  from Suc.prems have long: "n \<le> length ?b"
    by (metis div_less not_less old.nat.distinct(2))
  from extractFrames_step [OF Suc.prems(1) long, of clk i pub]
  obtain s2 where s2: "extractFrames clk i s pub =
        extractFrames clk (i + 2) s2 (pub @ [take n ?b])"
      "fc_incompleteBuffer s2 = drop n ?b"
      "fc_currentBuffer s2 = Some (take n ?b)"
      "fc_bytesPerFrame s2 = int n" "fc_width s2 = fc_width s"
      "fc_height s2 = fc_height s" "fc_isRunning s2 = fc_isRunning s"
      "fc_ffmpeg s2 = fc_ffmpeg s"
    by blast
  have k: "length (fc_incompleteBuffer s2) div n = k"
    using Suc.prems long by (simp add: s2(2) div_step)
  from Suc.IH [OF s2(4) Suc.prems(2) k, of "i + 2" "pub @ [take n ?b]"]
  obtain s' where s': "extractFrames clk (i + 2) s2 (pub @ [take n ?b]) =
        Some (s', i + 2 + 2 * k, (pub @ [take n ?b]) @ stream_frames n (drop n ?b))"
      "fc_incompleteBuffer s' = stream_rest n (drop n ?b)"
      "fc_bytesPerFrame s' = int n" "fc_width s' = fc_width s2"
      "fc_height s' = fc_height s2" "fc_isRunning s' = fc_isRunning s2"
      "fc_ffmpeg s' = fc_ffmpeg s2"
      "fc_currentBuffer s' =
         (if k = 0 then fc_currentBuffer s2
          else Some (last (stream_frames n (drop n ?b))))"
    unfolding s2(2) by blast
  have fr: "stream_frames n ?b = take n ?b # stream_frames n (drop n ?b)"
    using Suc.prems(2) long by (rule stream_frames_step)
  have rs: "stream_rest n ?b = stream_rest n (drop n ?b)"
    using Suc.prems(2) long by (rule stream_rest_step)
  have emp: "k = 0 \<Longrightarrow> stream_frames n (drop n ?b) = []"
    using k s2(2) Suc.prems(2) by (simp add: stream_frames_def)
  have nemp: "k \<noteq> 0 \<Longrightarrow> stream_frames n (drop n ?b) \<noteq> []"
    using k s2(2) by (simp add: stream_frames_def)
  show ?case
    using s2 s' fr rs emp nemp by auto
qed

lemma stream_frames_Nil: "stream_frames n xs = [] \<longleftrightarrow> length xs div n = 0"
  by (simp add: stream_frames_def)

lemma handleFrameData_result:
  assumes "fc_bytesPerFrame s = int n" and "0 < n"
  shows "\<exists>s' i'. handleFrameData clk i c s =
            Some (s', i', stream_frames n (fc_incompleteBuffer s @ c)) \<and>
          fc_incompleteBuffer s' = stream_rest n (fc_incompleteBuffer s @ c) \<and>
          fc_bytesPerFrame s' = int n \<and>
          fc_currentBuffer s' =
            (if stream_frames n (fc_incompleteBuffer s @ c) = [] then fc_currentBuffer s
             else Some (last (stream_frames n (fc_incompleteBuffer s @ c))))"
proof -
  let ?s = "s\<lparr>fc_incompleteBuffer := fc_incompleteBuffer s @ c\<rparr>"
  have "fc_bytesPerFrame ?s = int n" using assms(1) by simp
  from extractFrames_result [OF this assms(2) refl, of clk i "[]"]
  show ?thesis by (auto simp: handleFrameData_def stream_frames_Nil)
qed

lemma stream_frames_append:
  "0 < n \<Longrightarrow>
   stream_frames n (xs @ ys) = stream_frames n xs @ stream_frames n (stream_rest n xs @ ys)"
proof (induction "length xs" arbitrary: xs rule: less_induct)
  case less
  show ?case
  proof (cases "length xs < n")
    case True
    then show ?thesis by (simp add: stream_frames_short stream_rest_short)
  next
    case False
    then have long: "n \<le> length xs" by simp
    then have long': "n \<le> length (xs @ ys)" by simp
    have "length (drop n xs) < length xs" using long less.prems by simp
    from less.hyps [OF this less.prems]
    have ih: "stream_frames n (drop n xs @ ys) =
        stream_frames n (drop n xs) @ stream_frames n (stream_rest n (drop n xs) @ ys)" .
    show ?thesis
      using long ih
      by (simp add: stream_frames_step [OF less.prems long']
          stream_frames_step [OF less.prems long] stream_rest_step [OF less.prems long])
  qed
qed

lemma stream_rest_append:
  "0 < n \<Longrightarrow> stream_rest n (xs @ ys) = stream_rest n (stream_rest n xs @ ys)"
proof (induction "length xs" arbitrary: xs rule: less_induct)
  case less
  show ?case
  proof (cases "length xs < n")
    case True
    then show ?thesis by (simp add: stream_rest_short)
  next
    case False
    then have long: "n \<le> length xs" by simp
    then have long': "n \<le> length (xs @ ys)" by simp
    have "length (drop n xs) < length xs" using long less.prems by simp
    from less.hyps [OF this less.prems]
    have ih: "stream_rest n (drop n xs @ ys) = stream_rest n (stream_rest n (drop n xs) @ ys)" .
    show ?thesis
      using long ih
      by (simp add: stream_rest_step [OF less.prems long'] stream_rest_step [OF less.prems long])
  qed
qed

lemma feedChunks_result:
  assumes "fc_bytesPerFrame s = int n" and "0 < n"
    and "length (fc_incompleteBuffer s) < n"
  shows "\<exists>s' i'. feedChunks clk i s cs =
            Some (s', i', stream_frames n (fc_incompleteBuffer s @ concat cs)) \<and>
          fc_incompleteBuffer s' = stream_rest n (fc_incompleteBuffer s @ concat cs) \<and>
          fc_bytesPerFrame s' = int n \<and>
          fc_currentBuffer s' =
            (if stream_frames n (fc_incompleteBuffer s @ concat cs) = [] then fc_currentBuffer s
             else Some (last (stream_frames n (fc_incompleteBuffer s @ concat cs))))"
  using assms
proof (induction cs arbitrary: s i)
  case Nil
  then show ?case by (simp add: stream_frames_short stream_rest_short)
next
  case (Cons c cs)
  let ?F1 = "stream_frames n (fc_incompleteBuffer s @ c)"
  from handleFrameData_result [OF Cons.prems(1,2), of clk i c]
  obtain s1 i1 where s1: "handleFrameData clk i c s = Some (s1, i1, ?F1)"
      "fc_incompleteBuffer s1 = stream_rest n (fc_incompleteBuffer s @ c)"
      "fc_bytesPerFrame s1 = int n"
      "fc_currentBuffer s1 = (if ?F1 = [] then fc_currentBuffer s else Some (last ?F1))"
    by blast
  let ?F2 = "stream_frames n (fc_incompleteBuffer s1 @ concat cs)"
  have "length (fc_incompleteBuffer s1) < n"
    using Cons.prems(2) by (simp add: s1(2) stream_rest_length)
  from Cons.IH [OF s1(3) Cons.prems(2) this, of i1]
  obtain s2 i2 where s2: "feedChunks clk i1 s1 cs = Some (s2, i2, ?F2)"
      "fc_incompleteBuffer s2 = stream_rest n (fc_incompleteBuffer s1 @ concat cs)"
      "fc_bytesPerFrame s2 = int n"
      "fc_currentBuffer s2 = (if ?F2 = [] then fc_currentBuffer s1 else Some (last ?F2))"
    by blast
  have fa: "stream_frames n (fc_incompleteBuffer s @ c @ concat cs) = ?F1 @ ?F2"
    using stream_frames_append [OF Cons.prems(2), of "fc_incompleteBuffer s @ c" "concat cs"]
    by (simp add: s1(2))
  have ra: "stream_rest n (fc_incompleteBuffer s @ c @ concat cs) =
      stream_rest n (fc_incompleteBuffer s1 @ concat cs)"
    using stream_rest_append [OF Cons.prems(2), of "fc_incompleteBuffer s @ c" "concat cs"]
    by (simp add: s1(2))
  have slot: "fc_currentBuffer s2 =
      (if ?F1 @ ?F2 = [] then fc_currentBuffer s else Some (last (?F1 @ ?F2)))"
    by (simp add: s2(4) s1(4))
  have run: "feedChunks clk i s (c # cs) = Some (s2, i2, ?F1 @ ?F2)"
    by (simp add: s1(1) s2(1))
  show ?case
    unfolding concat.simps fa ra using run s2(2,3) slot by blast
qed

text \<open>
  Between two chunks a reader of the slot sees the last whole frame of the bytes
  delivered so far, whatever the split into chunks; before the first whole frame it sees
  what the slot held at the start.
\<close>

lemma reader_sees_latest_frame:
  assumes "fc_bytesPerFrame s = int n" and "0 < n" and "fc_incompleteBuffer s = []"
  shows "\<exists>s' i'. map_option (\<lambda>r. (fst r, fst (snd r))) (feedChunks clk i s (take m cs)) =
            Some (s', i') \<and>
          fc_getLatestFrame s' =
            (if length (concat (take m cs)) < n then fc_getLatestFrame s
             else Some (take n (drop ((length (concat (take m cs)) div n - 1) * n)
                    (concat (take m cs)))))"
proof -
  let ?xs = "concat (take m cs)"
  have "length (fc_incompleteBuffer s) < n" using assms(2,3) by simp
  from feedChunks_result [OF assms(1,2) this, of clk i "take m cs"]
  obtain s' i' where r: "feedChunks clk i s (take m cs) = Some (s', i', stream_frames n ?xs)"
      "fc_currentBuffer s' =
         (if stream_frames n ?xs = [] then fc_currentBuffer s
          else Some (last (stream_frames n ?xs)))"
    using assms(3) by auto
  have e: "stream_frames n ?xs = [] \<longleftrightarrow> length ?xs < n"
    using assms(2) by (simp add: stream_frames_Nil div_eq_0_iff)
  have l: "last (stream_frames n ?xs) = take n (drop ((length ?xs div n - 1) * n) ?xs)"
    if "\<not> length ?xs < n"
  proof -
    have "0 < length ?xs div n" using that assms(2) by (simp add: div_greater_zero_iff)
    then show ?thesis by (simp add: stream_frames_def last_map)
  qed
  show ?thesis using r e l by (auto simp: fc_getLatestFrame_def)
qed

text \<open>
  Claim C1. For a width and a height above zero the frame length is their product. From a
  source whose carry-over buffer is empty, a stream of \<open>k\<close> frame lengths of bytes,
  delivered to the chunk handler in any split into chunks, publishes exactly the \<open>k\<close>
  consecutive slices of the stream, each of one frame length, and leaves the carry-over
  empty; the frame slot, which is what a reader of the latest frame gets, then holds the
  last of these slices, and what it held before when \<open>k\<close> is zero. From any state, after
  any one chunk the handler returns, the carry-over is shorter than one frame, every
  frame it published has the frame length, and the frame slot holds the last frame the
  chunk published, or what it held before when the chunk completed no frame.
\<close>

theorem C1_demux:
  assumes "0 < w" and "0 < h" and "fc_bytesPerFrame s = w * h"
  shows "fc_bytesPerFrame (fst (fc_initialize av w h s0)) = w * h \<and>
    (fc_incompleteBuffer s = [] \<and> length (concat cs) = k * nat (w * h) \<longrightarrow>
      (\<exists>s' i'. feedChunks clk i s cs =
           Some (s', i', map (\<lambda>j. take (nat (w * h)) (drop (j * nat (w * h)) (concat cs))) [0..<k]) \<and>
         fc_incompleteBuffer s' = [] \<and>
         fc_getLatestFrame s' =
           (if k = 0 then fc_getLatestFrame s
            else Some (take (nat (w * h)) (drop ((k - 1) * nat (w * h)) (concat cs)))))) \<and>
    (\<exists>s' i' fs. handleFrameData clk i c s = Some (s', i', fs) \<and>
       int (length (fc_incompleteBuffer s')) < w * h \<and>
       list_all (\<lambda>f. int (length f) = w * h) fs \<and>
       fc_getLatestFrame s' = (if fs = [] then fc_getLatestFrame s else Some (last fs)))"
proof -
  define n where "n = nat (w * h)"
  have pos: "0 < n" using assms(1,2) by (simp add: n_def)
  have bpf: "fc_bytesPerFrame s = int n" using assms by (simp add: n_def)
  have wh: "w * h = int n" using assms(1,2) by (simp add: n_def)
  have init: "fc_bytesPerFrame (fst (fc_initialize av w h s0)) = w * h"
    by (simp add: fc_initialize_def)
  have whole: "\<exists>s' i'. feedChunks clk i s cs =
           Some (s', i', map (\<lambda>j. take n (drop (j * n) (concat cs))) [0..<k]) \<and>
         fc_incompleteBuffer s' = [] \<and>
         fc_getLatestFrame s' =
           (if k = 0 then fc_getLatestFrame s
            else Some (take n (drop ((k - 1) * n) (concat cs))))"
    if e: "fc_incompleteBuffer s = []" and l: "length (concat cs) = k * n"
  proof -
    have "length (fc_incompleteBuffer s) < n" using e pos by simp
    from feedChunks_result [OF bpf pos this, of clk i cs]
    obtain s' i' where r: "feedChunks clk i s cs = Some (s', i', stream_frames n (concat cs))"
        "fc_incompleteBuffer s' = stream_rest n (concat cs)"
        "fc_currentBuffer s' =
           (if stream_frames n (concat cs) = [] then fc_currentBuffer s
            else Some (last (stream_frames n (concat cs))))"
      using e by auto
    have fr: "stream_frames n (concat cs) = map (\<lambda>j. take n (drop (j * n) (concat cs))) [0..<k]"
      using l pos by (simp add: stream_frames_def)
    have rs: "stream_rest n (concat cs) = []"
      using l pos by (simp add: stream_rest_def)
    have la: "last (map (\<lambda>j. take n (drop (j * n) (concat cs))) [0..<k]) =
        take n (drop ((k - 1) * n) (concat cs))" if "k \<noteq> 0"
      using that by (simp add: last_map)
    have "fc_getLatestFrame s' =
           (if k = 0 then fc_getLatestFrame s
            else Some (take n (drop ((k - 1) * n) (concat cs))))"
      using r(3) la by (simp add: fr fc_getLatestFrame_def)
    with r(1,2) fr rs show ?thesis by simp
  qed
  have one: "\<exists>s' i' fs. handleFrameData clk i c s = Some (s', i', fs) \<and>
       int (length (fc_incompleteBuffer s')) < w * h \<and>
       list_all (\<lambda>f. int (length f) = w * h) fs \<and>
       fc_getLatestFrame s' = (if fs = [] then fc_getLatestFrame s else Some (last fs))"
  proof -
    let ?F = "stream_frames n (fc_incompleteBuffer s @ c)"
    from handleFrameData_result [OF bpf pos, of clk i c]
    obtain s' i' where r: "handleFrameData clk i c s = Some (s', i', ?F)"
        "fc_incompleteBuffer s' = stream_rest n (fc_incompleteBuffer s @ c)"
        "fc_currentBuffer s' = (if ?F = [] then fc_currentBuffer s else Some (last ?F))"
      by blast
    have "int (length (fc_incompleteBuffer s')) < w * h"
      using pos by (simp add: r(2) stream_rest_length wh)
    moreover have "list_all (\<lambda>f. length f = n) (stream_frames n xs)" for xs
    proof -
      have "j < length xs div n \<Longrightarrow> n \<le> length xs - j * n" for j
      proof -
        assume "j < length xs div n"
        then have "Suc j * n \<le> length xs div n * n" by (simp add: Suc_leI mult_le_mono1 del: mult_Suc)
        also have "\<dots> \<le> length xs" by simp
        finally show ?thesis by simp
      qed
      then show ?thesis by (auto simp: stream_frames_def list_all_iff min_def dest: le_antisym)
    qed
    then have "list_all (\<lambda>f. int (length f) = w * h) ?F" by (simp add: wh)
    moreover have "fc_getLatestFrame s' = (if ?F = [] then fc_getLatestFrame s else Some (last ?F))"
      using r(3) by (simp add: fc_getLatestFrame_def)
    ultimately show ?thesis using r(1) by blast
  qed
  show ?thesis using init whole one unfolding n_def [symmetric] by blast
qed

theorem C1_demux_witness:
  "\<exists>s' i'. feedChunks (\<lambda>_. 0) 0 (fst (fc_start 7 (fst (fc_initialize True 2 2 (FFmpegCapture_new Linux 0)))))
       [[1, 2, 3], [4, 5, 6, 7, 8]] = Some (s', i', [[1, 2, 3, 4], [5, 6, 7, 8]]) \<and>
     fc_incompleteBuffer s' = [] \<and> fc_getLatestFrame s' = Some [5, 6, 7, 8]"
  using C1_demux [of 2 2 "fst (fc_start 7 (fst (fc_initialize True 2 2 (FFmpegCapture_new Linux 0))))"
      True "FFmpegCapture_new Linux 0" "[[1, 2, 3], [4, 5, 6, 7, 8]]" "Suc (Suc 0)" "\<lambda>_. 0" 0 "[]"]
  by (simp add: fc_start_def fc_initialize_def FFmpegCapture_new_def)

section \<open>The frame slot across a change of resolution\<close>

text \<open>
  While the process counts as running, a change of resolution empties the frame slot
  before the dimensions change.
\<close>

lemma updateResolution_running_clears:
  "fc_isRunning s \<Longrightarrow> \<not> (w = fc_width s \<and> h = fc_height s) \<Longrightarrow>
   fc_getLatestFrame (fst (fc_updateResolution pid w h s)) = None"
  by (auto simp: fc_updateResolution_def fc_stop_def fc_start_def fc_getLatestFrame_def
      Let_def split: option.splits prod.splits)

text \<open>
  Once the \<^verbatim>\<open>'close'\<close> handler has run, \<^verbatim>\<open>stop()\<close> returns at its guard and clears
  nothing: the frame of the old dimensions stays in the slot under the new dimensions.
\<close>

lemma stale_frame_after_crash:
  "\<exists>s1 i fs.
     handleFrameData (\<lambda>_. 0) 0 [1, 2, 3, 4]
       (fst (fc_start 1 (fst (fc_initialize True 2 2 (FFmpegCapture_new Linux 0))))) =
       Some (s1, i, fs) \<and>
     fc_getLatestFrame (fst (fc_updateResolution 2 3 3 (fc_onClose s1))) = Some [1, 2, 3, 4] \<and>
     fc_width (fst (fc_updateResolution 2 3 3 (fc_onClose s1))) = 3 \<and>
     fc_height (fst (fc_updateResolution 2 3 3 (fc_onClose s1))) = 3"
  by (simp add: handleFrameData_def extractFrames.simps fc_start_def fc_initialize_def
      FFmpegCapture_new_def buf_slice_def buf_slice_from_def slice_index_def Let_def
      fc_updateResolution_def fc_stop_def fc_onClose_def fc_getLatestFrame_def)

text \<open>
  The same happens without any crash: the \<^verbatim>\<open>'close'\<close> event of the process killed by a
  first change of resolution arrives after the restart and marks the source as not
  running, so a second change kills nothing and clears nothing.
\<close>

lemma stale_frame_after_two_resizes:
  "\<exists>s1 i1 f1 s2 i2 f2.
     handleFrameData (\<lambda>_. 0) 0 [1, 2, 3, 4]
       (fst (fc_start 1 (fst (fc_initialize True 2 2 (FFmpegCapture_new Linux 0))))) =
       Some (s1, i1, f1) \<and>
     handleFrameData (\<lambda>_. 0) i1 [1, 2, 3, 4, 5, 6, 7, 8, 9]
       (fc_onClose (fst (fc_updateResolution 2 3 3 s1))) = Some (s2, i2, f2) \<and>
     fc_updateResolution 3 4 4 s2 =
       (s2\<lparr>fc_width := 4, fc_height := 4, fc_bytesPerFrame := 16, fc_ffmpeg := Some 3,
           fc_isRunning := True\<rparr>, [Spawn Linux 4 4]) \<and>
     fc_getLatestFrame (fst (fc_updateResolution 3 4 4 s2)) = Some [1, 2, 3, 4, 5, 6, 7, 8, 9]"
  by (simp add: handleFrameData_def extractFrames.simps fc_start_def fc_initialize_def
      FFmpegCapture_new_def buf_slice_def buf_slice_from_def slice_index_def Let_def
      fc_updateResolution_def fc_stop_def fc_onClose_def fc_getLatestFrame_def)

text \<open>
  Claim C2. The claim asks that no read of the frame slot returns bytes of the old
  dimensions under the new ones, also after a crash of the subprocess. At the supervisor:
  a 2 by 2 source publishes a frame of four bytes, its process closes, and the resolution
  changes to 3 by 3; the read then returns the four bytes while the supervisor and the
  source both hold 3 by 3 and a frame length of nine.
\<close>

theorem C2_stale_frame_reaches_reader:
  "\<exists>s1. hc_onChunk (\<lambda>_. 0) 0 [1, 2, 3, 4]
           (fst (hc_initialize Linux 0 True 1 2 2 HybridCapture_new)) = Some s1 \<and>
     hc_getLatestFrame (fst (hc_updateResolution 2 3 3 (hc_onClose s1))) = Some [1, 2, 3, 4] \<and>
     hc_width (fst (hc_updateResolution 2 3 3 (hc_onClose s1))) = 3 \<and>
     hc_height (fst (hc_updateResolution 2 3 3 (hc_onClose s1))) = 3 \<and>
     map_option (\<lambda>f. (fc_width f, fc_height f, fc_bytesPerFrame f))
       (hc_ffmpegCapture (fst (hc_updateResolution 2 3 3 (hc_onClose s1)))) = Some (3, 3, 9)"
  by (simp add: hc_onChunk_def hc_initialize_def HybridCapture_new_def hc_onClose_def
      hc_updateResolution_def hc_getLatestFrame_def
      handleFrameData_def extractFrames.simps fc_start_def fc_initialize_def
      FFmpegCapture_new_def buf_slice_def buf_slice_from_def slice_index_def Let_def
      fc_updateResolution_def fc_stop_def fc_onClose_def fc_getLatestFrame_def)

section \<open>The scheduling of the next tick\<close>

lemma scheduleNextFrame_running:
  "tr_isRunning r \<Longrightarrow>
   scheduleNextFrame (r, el) =
     ((r\<lparr>tr_timeoutId := Some (el_nextId el)\<rparr>,
       el\<lparr>el_pending := el_pending el @ [(el_nextId el, cfg_delay (tr_config r))],
          el_nextId := Suc (el_nextId el)\<rparr>),
      [EvSetTimeout (el_nextId el) (cfg_delay (tr_config r))])"
  by (simp add: scheduleNextFrame_def setTimeout_def)

lemma trackPerformance_keeps:
  "tr_isRunning (fst (trackPerformance mode c s t r)) = tr_isRunning r \<and>
   list_all is_work (snd (trackPerformance mode c s t r))"
  by (simp add: trackPerformance_def Let_def is_work_def)

lemma updateFps_keeps:
  "tr_isRunning (fst (updateFps now th r)) = tr_isRunning r \<and>
   list_all is_work (fst (snd (updateFps now th r)))"
  by (simp add: updateFps_def Let_def is_work_def)

text \<open>The first part of a tick schedules the next tick before anything else.\<close>

lemma tickBegin_running:
  fixes r :: "'t::{zero,plus,minus} renderer"
  assumes "tr_isRunning r"
  shows "\<exists>r' rest fl. tickBegin env cap (r, el) =
      ((r', el\<lparr>el_pending := el_pending el @ [(el_nextId el, cfg_delay (tr_config r))],
               el_nextId := Suc (el_nextId el)\<rparr>),
       EvSetTimeout (el_nextId el) (cfg_delay (tr_config r)) # rest, fl) \<and>
     list_all is_work rest \<and> tr_isRunning r'"
proof (cases "hc_getLatestFrame cap")
  case None
  then show ?thesis
    using assms by (simp add: tickBegin_def scheduleNextFrame_running is_work_def)
next
  case (Some fb)
  note fb = Some
  show ?thesis
  proof (cases "te_dimensions env")
    case None
    then show ?thesis
      using assms fb by (simp add: tickBegin_def scheduleNextFrame_running is_work_def)
  next
    case (Some d)
    obtain w h where d: "d = (w, h)" by (cases d)
    obtain c' logs res where
      "convertToTerminal (te_sharp env) (Some fb) w h
         (tr_converter (r\<lparr>tr_timeoutId := Some (el_nextId el)\<rparr>)) = (c', logs, res)"
      by (cases "convertToTerminal (te_sharp env) (Some fb) w h
         (tr_converter (r\<lparr>tr_timeoutId := Some (el_nextId el)\<rparr>))")
    then show ?thesis
      using assms fb Some d
      by (simp add: tickBegin_def scheduleNextFrame_running is_work_def)
  qed
qed

text \<open>The second part of a tick sets no timer and clears none, and stops nothing.\<close>

lemma tickEnd_keeps:
  fixes r :: "'t::{zero,plus,minus} renderer"
  shows "\<exists>r' tr. tickEnd env cap fl (r, el) = ((r', el), tr) \<and>
     list_all is_work tr \<and> tr_isRunning r' = tr_isRunning r"
proof -
  have logs: "list_all is_work (map EvConsole (fl_logs fl) :: 't tick_event list)"
    by (simp add: list_all_iff is_work_def)
  show ?thesis
  proof (cases "fl_result fl")
    case (Inl err)
    then show ?thesis using logs by (simp add: tickEnd_def is_work_def)
  next
    case (Inr frame)
    let ?tp = "trackPerformance (hc_getMode cap) (fl_captureTime fl)
                 (te_sharpEnd env - fl_sharpStart fl) (te_totalEnd env - fl_frameStart fl) r"
    let ?uf = "updateFps (te_now env) (te_onStatsThrows env) (fst ?tp)"
    have tp: "tr_isRunning (fst ?tp) = tr_isRunning r" "list_all is_work (snd ?tp)"
      using trackPerformance_keeps [of "hc_getMode cap" _ _ _ r] by simp_all
    have uf: "tr_isRunning (fst ?uf) = tr_isRunning r" "list_all is_work (fst (snd ?uf))"
      using updateFps_keeps [of "te_now env" "te_onStatsThrows env" "fst ?tp"] tp(1)
      by simp_all
    show ?thesis
      using Inr logs tp uf
      by (simp add: tickEnd_def is_work_def split_beta Let_def)
  qed
qed

text \<open>
  So a running scheduler with a timer pending takes every step, in any interleaving of
  firings and ends of conversions, and a timer is pending after each.
\<close>

lemma schedStep_running:
  fixes r :: "'t::{zero,plus,minus} renderer"
  assumes "tr_isRunning r" and "el_pending el \<noteq> []"
  shows "\<exists>r' el' fls' tr. schedStep ev ((r, el), fls) = Some (((r', el'), fls'), tr) \<and>
     step_trace_ok ev tr \<and> tr_isRunning r' \<and> el_pending el' \<noteq> []"
proof (cases ev)
  case (TimerFires env cap)
  from assms(2) obtain t ts where p: "el_pending el = t # ts" by (cases "el_pending el") auto
  from tickBegin_running [OF assms(1), of env cap "el\<lparr>el_pending := ts\<rparr>"]
  show ?thesis
    by (auto simp: schedStep_def TimerFires p step_trace_ok_def is_firing_def tick_scheduled_def)
next
  case (ConversionEnds i env cap)
  show ?thesis
  proof (cases "i < length fls")
    case True
    from tickEnd_keeps [of env cap "fls ! i" r el] assms True
    show ?thesis
      by (auto simp: schedStep_def ConversionEnds step_trace_ok_def is_firing_def)
  next
    case False
    with assms show ?thesis
      by (simp add: schedStep_def ConversionEnds step_trace_ok_def is_firing_def)
  qed
qed

lemma schedRun_never_stalls:
  fixes r :: "'t::{zero,plus,minus} renderer"
  assumes "tr_isRunning r" and "el_pending el \<noteq> []"
  shows "\<exists>r' el' fls' trs. schedRun evs ((r, el), fls) = Some (((r', el'), fls'), trs) \<and>
     list_all2 step_trace_ok evs trs \<and> tr_isRunning r' \<and> el_pending el' \<noteq> []"
  using assms
proof (induction evs arbitrary: r el fls)
  case Nil
  then show ?case by simp
next
  case (Cons e es)
  from schedStep_running [OF Cons.prems, of e fls]
  obtain r1 el1 fls1 tr where
    f: "schedStep e ((r, el), fls) = Some (((r1, el1), fls1), tr)"
    and tr: "step_trace_ok e tr" and run: "tr_isRunning r1" and pend: "el_pending el1 \<noteq> []"
    by blast
  from Cons.IH [OF run pend, of fls1]
  obtain r' el' fls' trs where "schedRun es ((r1, el1), fls1) = Some (((r', el'), fls'), trs)"
    "list_all2 step_trace_ok es trs" "tr_isRunning r'" "el_pending el' \<noteq> []"
    by blast
  with f tr show ?case by simp
qed

text \<open>
  Claim C3. When its timer fires, a tick of a running scheduler registers the timer of
  the next tick as its first event, before it reads the frame, asks for the dimensions or
  starts the conversion, and the callbacks come later still; the timer is pending from
  then on. This holds for every environment of the tick, so whatever the readings of the
  clock and however long the conversion takes. Hence the event loop never finds the
  scheduler without a pending timer: in any sequence of firings and ends of conversions,
  also one where a timer fires while conversions of earlier ticks are still in flight,
  every firing begins a tick that schedules its successor first.
\<close>

theorem C3_next_tick_scheduled_first:
  fixes r :: "'t::{zero,plus,minus} renderer"
  assumes "tr_isRunning r"
  shows "\<exists>r' el' rest fl.
      tickBegin env cap (r, el) =
        ((r', el'), EvSetTimeout (el_nextId el) (cfg_delay (tr_config r)) # rest, fl) \<and>
      list_all is_work rest \<and>
      (el_nextId el, cfg_delay (tr_config r)) \<in> set (el_pending el') \<and>
      tr_isRunning r' \<and>
      (el_pending el \<noteq> [] \<longrightarrow>
         (\<exists>r'' el'' fls' trs.
            schedRun evs ((r, el), fls) = Some (((r'', el''), fls'), trs) \<and>
            list_all2 step_trace_ok evs trs \<and>
            tr_isRunning r'' \<and> el_pending el'' \<noteq> []))"
proof -
  from tickBegin_running [OF assms, of env cap el]
  obtain r' rest fl where "tickBegin env cap (r, el) =
      ((r', el\<lparr>el_pending := el_pending el @ [(el_nextId el, cfg_delay (tr_config r))],
               el_nextId := Suc (el_nextId el)\<rparr>),
       EvSetTimeout (el_nextId el) (cfg_delay (tr_config r)) # rest, fl)"
    "list_all is_work rest" "tr_isRunning r'"
    by blast
  moreover have "(el_nextId el, cfg_delay (tr_config r)) \<in>
      set (el_pending (el\<lparr>el_pending := el_pending el @ [(el_nextId el, cfg_delay (tr_config r))],
               el_nextId := Suc (el_nextId el)\<rparr>))"
    by simp
  ultimately show ?thesis
    using schedRun_never_stalls [OF assms, of el evs fls] by blast
qed

theorem C3_next_tick_scheduled_first_witness:
  "\<exists>r' el' rest fl.
      tickBegin slow_tick streaming_capture
        (fst (tr_start True True 0
           (TerminalRenderer_new default_config 0, \<lparr>el_pending = [], el_nextId = 0\<rparr>))) =
        ((r', el'), EvSetTimeout 1 50 # rest, fl) \<and>
      list_all is_work rest \<and> (1, 50) \<in> set (el_pending el') \<and> tr_isRunning r' \<and>
      (\<exists>r'' el'' fls' trs.
         schedRun [TimerFires slow_tick streaming_capture, TimerFires slow_tick streaming_capture,
                   ConversionEnds 0 slow_tick streaming_capture,
                   TimerFires slow_tick streaming_capture]
           (fst (tr_start True True 0
              (TerminalRenderer_new default_config 0, \<lparr>el_pending = [], el_nextId = 0\<rparr>)), []) =
           Some (((r'', el''), fls'), trs) \<and>
         list_all2 step_trace_ok
           [TimerFires slow_tick streaming_capture, TimerFires slow_tick streaming_capture,
            ConversionEnds 0 slow_tick streaming_capture,
            TimerFires slow_tick streaming_capture] trs \<and>
         tr_isRunning r'' \<and> el_pending el'' \<noteq> [])"
proof -
  let ?R = "(TerminalRenderer_new default_config 0 :: int renderer)
       \<lparr>tr_onFrameCallback := True, tr_onStatsCallback := True, tr_isRunning := True,
        tr_frameCount := 0, tr_lastFpsUpdate := 0, tr_timeoutId := Some 0\<rparr>"
  let ?EL = "\<lparr>el_pending = [(0, 50)], el_nextId = 1\<rparr>"
  have st: "fst (tr_start True True 0
      (TerminalRenderer_new default_config 0 :: int renderer, \<lparr>el_pending = [], el_nextId = 0\<rparr>)) =
    (?R, ?EL)"
    by (simp add: tr_start_def scheduleNextFrame_def setTimeout_def TerminalRenderer_new_def
        cfg_delay_def default_config_def createWebcamConfig_def getOptimalCaptureResolution_def)
  have run: "tr_isRunning ?R" by simp
  have d: "cfg_delay (tr_config ?R) = 50"
    by (simp add: TerminalRenderer_new_def cfg_delay_def default_config_def
        createWebcamConfig_def getOptimalCaptureResolution_def)
  have n: "el_nextId ?EL = 1" by simp
  have pend: "el_pending ?EL \<noteq> []" by simp
  from C3_next_tick_scheduled_first [OF run, of slow_tick streaming_capture ?EL
      "[TimerFires slow_tick streaming_capture, TimerFires slow_tick streaming_capture,
        ConversionEnds 0 slow_tick streaming_capture,
        TimerFires slow_tick streaming_capture]" "[]", unfolded d n] pend
  show ?thesis unfolding st by auto
qed

section \<open>The mapping of brightness to glyphs\<close>

text \<open>
  For a ramp of five glyphs the index is found at the ends of the five runs of bytes on
  which the exact quotient is constant; monotonicity fills the runs.
\<close>


lemma glyphIndex_5_at:
  "glyphIndex 0 5 = 0" "glyphIndex 63 5 = 0" "glyphIndex 64 5 = 1" "glyphIndex 127 5 = 1"
  "glyphIndex 128 5 = 2" "glyphIndex 191 5 = 2" "glyphIndex 192 5 = 3" "glyphIndex 254 5 = 3"
  "glyphIndex 255 5 = 4"
  by code_simp+

lemma uint_byte_numerals:
  "uint (63 :: byte) = 63" "uint (64 :: byte) = 64" "uint (127 :: byte) = 127"
  "uint (128 :: byte) = 128" "uint (191 :: byte) = 191" "uint (192 :: byte) = 192"
  "uint (254 :: byte) = 254" "uint (255 :: byte) = 255"
  by simp_all

lemma glyphIndex_5_exact: "glyphIndex b 5 = spec_glyphIndex b 5"
proof -
  have L: "(1::nat) \<le> 5" by simp
  note m = glyphIndex_mono [OF L]
  note r = byte_range [of b]
  consider "uint b \<le> 63" | "64 \<le> uint b" "uint b \<le> 127" | "128 \<le> uint b" "uint b \<le> 191"
    | "192 \<le> uint b" "uint b \<le> 254" | "255 \<le> uint b"
    by linarith
  then show ?thesis
  proof cases
    case 1
    then have "glyphIndex b 5 \<le> glyphIndex 63 5" by (intro m) (simp add: uint_byte_numerals)
    moreover have "glyphIndex 0 5 \<le> glyphIndex b 5" using r by (intro m) simp
    ultimately have "glyphIndex b 5 = 0" by (simp add: glyphIndex_5_at)
    moreover have "spec_glyphIndex b 5 = 0" using 1 r by (simp add: spec_glyphIndex_def)
    ultimately show ?thesis by simp
  next
    case 2
    then have "glyphIndex b 5 \<le> glyphIndex 127 5" "glyphIndex 64 5 \<le> glyphIndex b 5"
      by (auto intro!: m simp: uint_byte_numerals)
    then have "glyphIndex b 5 = 1" by (simp add: glyphIndex_5_at)
    moreover have "spec_glyphIndex b 5 = 1"
      using 2 unfolding spec_glyphIndex_def by simp
    ultimately show ?thesis by simp
  next
    case 3
    then have "glyphIndex b 5 \<le> glyphIndex 191 5" "glyphIndex 128 5 \<le> glyphIndex b 5"
      by (auto intro!: m simp: uint_byte_numerals)
    then have "glyphIndex b 5 = 2" by (simp add: glyphIndex_5_at)
    moreover have "spec_glyphIndex b 5 = 2"
      using 3 unfolding spec_glyphIndex_def by simp
    ultimately show ?thesis by simp
  next
    case 4
    then have "glyphIndex b 5 \<le> glyphIndex 254 5" "glyphIndex 192 5 \<le> glyphIndex b 5"
      by (auto intro!: m simp: uint_byte_numerals)
    then have "glyphIndex b 5 = 3" by (simp add: glyphIndex_5_at)
    moreover have "spec_glyphIndex b 5 = 3"
      using 4 unfolding spec_glyphIndex_def by simp
    ultimately show ?thesis by simp
  next
    case 5
    with r have u: "uint b = 255" by simp
    then have "b = 255" by (metis uint_byte_numerals(8) word_uint_eq_iff)
    then show ?thesis by (simp add: glyphIndex_5_at spec_glyphIndex_def)
  qed
qed

lemma brightnessToChar_in_range:
  assumes "1 \<le> length ramp" and "length ramp \<le> 2 ^ 53"
  shows "brightnessToChar ramp (Some b) = Some (ramp ! nat (glyphIndex b (length ramp)))"
proof -
  have "int (length ramp) - 1 \<le> 2 ^ 53" using assms(2) by simp
  from glyphIndex_bounds [OF assms(1) this, of b]
  show ?thesis by (simp add: brightnessToChar_def charAt_def)
qed

text \<open>
  The two roundings at a ramp of 52 glyphs and the brightness 155: the quotient
  \<open>155 / 255\<close> is rounded to the double \<open>5474964252881779 / 2 ^ 53\<close>, a little below
  \<open>31 / 51\<close>, and its product with 51 to the double \<open>31 - 2 ^ -48\<close>, which JavaScript
  prints as 30.999999999999996.
\<close>

lemma double_155_over_255_times_51:
  "js_div 155 255 = Dyadic 5474964252881779 (- 53)"
  "js_mul (js_div 155 255) 51 = Dyadic 8725724278030335 (- 48)"
  "dval (Dyadic 8725724278030335 (- 48)) = 31 - 1 / 2 ^ 48"
  by code_simp+

text \<open>
  Claim C4, as stated, fails when the formula is read in exact arithmetic: the quotient
  and the product are rounded to doubles, and for a ramp of 52 glyphs and the brightness
  155 the product, exactly 31, is computed as a double just below 31. The converter
  takes the glyph at index 30.
\<close>

theorem C4_index_below_exact_floor:
  "brightnessToChar (map of_nat [0..<52]) (Some 155) = Some 30 \<and>
   glyphIndex 155 52 = 30 \<and> spec_glyphIndex 155 52 = 31"
  by code_simp

text \<open>
  Claim C4, amended. For a ramp of at least two glyphs the converter maps a brightness
  byte to the glyph at the index that \<^verbatim>\<open>Math.floor((b / 255) * (L - 1))\<close> gives in double
  arithmetic; the index is from 0 to \<open>L - 1\<close> and does not decrease when the brightness
  grows; it is the exact \<open>floor(b * (L - 1) / 255)\<close> or one less. For a ramp of five
  glyphs it is the exact \<open>floor(b * 4 / 255)\<close> at every byte, and the default ramp gives a
  space at 0, U+2592 at 128 and U+2588 at 255.
\<close>

theorem C4_glyph_index:
  assumes "2 \<le> length ramp" and "length ramp \<le> 2 ^ 53"
  shows "brightnessToChar ramp (Some b) = Some (ramp ! nat (glyphIndex b (length ramp))) \<and>
    glyphIndex b (length ramp) =
      js_floor (js_mul (js_div (uint b) 255) (int (length ramp) - 1)) \<and>
    0 \<le> glyphIndex b (length ramp) \<and> glyphIndex b (length ramp) \<le> int (length ramp) - 1 \<and>
    (uint b \<le> uint b' \<longrightarrow> glyphIndex b (length ramp) \<le> glyphIndex b' (length ramp)) \<and>
    (length ramp \<le> 2 ^ 40 \<longrightarrow>
       spec_glyphIndex b (length ramp) - 1 \<le> glyphIndex b (length ramp) \<and>
       glyphIndex b (length ramp) \<le> spec_glyphIndex b (length ramp)) \<and>
    glyphIndex b 5 = spec_glyphIndex b 5 \<and>
    brightnessToChar default_ramp (Some 0) = Some 0x20 \<and>
    brightnessToChar default_ramp (Some 128) = Some 0x2592 \<and>
    brightnessToChar default_ramp (Some 255) = Some 0x2588"
proof -
  have L: "1 \<le> length ramp" using assms(1) by simp
  have k: "int (length ramp) - 1 \<le> 2 ^ 53" using assms(2) by simp
  have d: "1 \<le> length default_ramp" "length default_ramp \<le> 2 ^ 53" "length default_ramp = 5"
    by (simp_all add: default_ramp_def)
  have ex: "brightnessToChar default_ramp (Some 0) = Some 0x20"
    "brightnessToChar default_ramp (Some 128) = Some 0x2592"
    "brightnessToChar default_ramp (Some 255) = Some 0x2588"
    unfolding brightnessToChar_in_range [OF d(1,2)] d(3) glyphIndex_5_at
    by (simp_all add: default_ramp_def)
  have near: "spec_glyphIndex b (length ramp) - 1 \<le> glyphIndex b (length ramp) \<and>
       glyphIndex b (length ramp) \<le> spec_glyphIndex b (length ramp)"
    if "length ramp \<le> 2 ^ 40"
  proof -
    have "int (length ramp) - 1 \<le> 2 ^ 40" using that by simp
    with L show ?thesis by (rule glyphIndex_near_exact)
  qed
  have def: "glyphIndex b (length ramp) =
      js_floor (js_mul (js_div (uint b) 255) (int (length ramp) - 1))"
    by (simp only: glyphIndex_def)
  show ?thesis
    using brightnessToChar_in_range [OF L assms(2), of b] glyphIndex_bounds [OF L k, of b]
      glyphIndex_mono [OF L, of b b'] glyphIndex_5_exact [of b] ex near def
    by blast
qed

theorem C4_glyph_index_witness:
  "brightnessToChar default_ramp (Some 64) =
     Some (default_ramp ! nat (glyphIndex 64 (length default_ramp))) \<and>
   0 \<le> glyphIndex 64 (length default_ramp) \<and>
   glyphIndex 64 (length default_ramp) \<le> int (length default_ramp) - 1 \<and>
   glyphIndex 64 (length default_ramp) \<le> glyphIndex 200 (length default_ramp) \<and>
   brightnessToChar default_ramp (Some 128) = Some 0x2592"
proof -
  have h: "2 \<le> length default_ramp" "length default_ramp \<le> 2 ^ 53"
    by (simp_all add: default_ramp_def)
  have u: "uint (64 :: byte) \<le> uint (200 :: byte)" by simp
  from C4_glyph_index [OF h, of 64 200] u show ?thesis by blast
qed

section \<open>The conversion of raw frames\<close>

text \<open>
  Splitting at newlines undoes the joining of rows that hold no newline; so a frame made
  from pixels with a ramp that holds none is a grid.
\<close>

lemma splitLines_replicate:
  "splitLines (replicate n newline @ rest) = replicate n [] @ splitLines rest"
  by (induction n) simp_all

lemma splitLines_plain: "newline \<notin> set xs \<Longrightarrow> splitLines xs = [xs]"
  by (induction xs) auto

lemma splitLines_line:
  "newline \<notin> set xs \<Longrightarrow> splitLines (xs @ newline # rest) = xs # splitLines rest"
  by (induction xs) auto

lemma splitLines_joinLines:
  "rows \<noteq> [] \<Longrightarrow> list_all (\<lambda>r. newline \<notin> set r) rows \<Longrightarrow>
   splitLines (joinLines rows) = rows"
proof (induction rows rule: joinLines.induct)
  case 1
  then show ?case by simp
next
  case (2 l)
  then show ?case by (simp add: splitLines_plain)
next
  case (3 l v va)
  then show ?case by (simp add: splitLines_line)
qed

lemma joinChars_Some: "joinChars (map (\<lambda>x. Some (f x)) xs) = map f xs"
  by (induction xs) (simp_all add: joinChars_def)

lemma raw_index:
  assumes "int (length src) = w * h" and "y < nat h" and "x < nat w"
  shows "byteAt src (int y * w + int x) = Some (src ! (y * nat w + x))"
proof -
  from assms(2,3) have pos: "0 < h" "0 < w" by simp_all
  have yx: "int y * w + int x = int (y * nat w + x)" using pos by simp
  have "Suc y \<le> nat h" using assms(2) by simp
  then have "Suc y * nat w \<le> nat h * nat w" by (rule mult_le_mono1)
  moreover have "nat h * nat w = length src"
    using assms(1) pos by (metis mult.commute nat_int nat_mult_distrib order_less_imp_le)
  ultimately have "y * nat w + x < length src" using assms(3) by simp
  then show ?thesis by (simp add: byteAt_def yx del: of_nat_add of_nat_mult)
qed

lemma asciiRow_raw:
  assumes "int (length src) = w * h" and "y < nat h"
    and "1 \<le> length ramp" and "length ramp \<le> 2 ^ 53"
  shows "asciiRow ramp src w y =
         map (\<lambda>x. ramp ! nat (glyphIndex (src ! (y * nat w + x)) (length ramp))) [0..<nat w]"
proof -
  have "map (\<lambda>x. brightnessToChar ramp (byteAt src (int y * w + int x))) [0..<nat w] =
        map (\<lambda>x. Some (ramp ! nat (glyphIndex (src ! (y * nat w + x)) (length ramp)))) [0..<nat w]"
    using raw_index [OF assms(1,2)] brightnessToChar_in_range [OF assms(3,4)]
    by (intro map_cong) simp_all
  then show ?thesis by (simp only: asciiRow_def joinChars_Some)
qed

lemma raw_conversion:
  assumes "ic_mode c \<noteq> SharpMode" and "int (length src) = w * h"
    and "1 \<le> length (ic_charRamp c)" and "length (ic_charRamp c) \<le> 2 ^ 53"
  shows "convertToTerminal sharp (Some src) w h c =
     (c\<lparr>ic_lastWidth := w, ic_lastHeight := h\<rparr>, [],
      Inr (joinLines
        (map (\<lambda>y. map (\<lambda>x. ic_charRamp c !
                              nat (glyphIndex (src ! (y * nat w + x)) (length (ic_charRamp c))))
                     [0..<nat w])
           [0..<nat h])))"
proof -
  have "map (asciiRow (ic_charRamp c) src w) [0..<nat h] =
        map (\<lambda>y. map (\<lambda>x. ic_charRamp c !
                              nat (glyphIndex (src ! (y * nat w + x)) (length (ic_charRamp c))))
                     [0..<nat w])
           [0..<nat h]"
    using asciiRow_raw [OF assms(2) _ assms(3,4)] by (intro map_cong) simp_all
  moreover have "convertToTerminal sharp (Some src) w h c =
     (c\<lparr>ic_lastWidth := w, ic_lastHeight := h\<rparr>, [],
      Inr (joinLines (map (asciiRow (ic_charRamp c) src w) [0..<nat h])))"
    using assms(1,2) by (simp add: convertToTerminal_def pixelsToAscii_def Let_def)
  ultimately show ?thesis by (simp only:)
qed

lemma converter_mode_kept:
  "ic_mode (ImageConverter_new ramp) = AutoMode"
  "ic_mode (setCharacterRamp ramp c) = ic_mode c"
  "ic_mode (fst (convertToTerminal sharp src w h c)) = ic_mode c"
  by (auto simp: ImageConverter_new_def setCharacterRamp_def convertToTerminal_def Let_def
      split: option.splits sum.splits)

lemma raw_frame_is_grid:
  assumes "ic_mode c \<noteq> SharpMode" and "int (length src) = w * h"
    and "1 \<le> length (ic_charRamp c)" and "length (ic_charRamp c) \<le> 2 ^ 53"
    and "newline \<notin> set (ic_charRamp c)" and "1 \<le> h" and "0 \<le> w"
  shows "\<exists>text. convertToTerminal sharp (Some src) w h c =
           (c\<lparr>ic_lastWidth := w, ic_lastHeight := h\<rparr>, [], Inr text) \<and>
         isGlyphGrid w h text"
proof -
  let ?ramp = "ic_charRamp c"
  let ?row = "\<lambda>y. map (\<lambda>x. ?ramp ! nat (glyphIndex (src ! (y * nat w + x)) (length ?ramp)))
                     [0..<nat w]"
  let ?rows = "map ?row [0..<nat h]"
  have k: "int (length ?ramp) - 1 \<le> 2 ^ 53" using assms(4) by simp
  have inr: "?ramp ! nat (glyphIndex b (length ?ramp)) \<in> set ?ramp" for b
    using glyphIndex_bounds [OF assms(3) k, of b] by (intro nth_mem) linarith
  have plain: "newline \<notin> set (?row y)" for y
  proof
    assume "newline \<in> set (?row y)"
    then obtain x where "newline = ?ramp ! nat (glyphIndex (src ! (y * nat w + x)) (length ?ramp))"
      by auto
    with inr [of "src ! (y * nat w + x)"] assms(5) show False by simp
  qed
  have ne: "?rows \<noteq> []" using assms(6) by simp
  have "list_all (\<lambda>r. newline \<notin> set r) ?rows"
    unfolding list_all_iff using plain by auto
  from splitLines_joinLines [OF ne this]
  have "isGlyphGrid w h (joinLines ?rows)"
    using assms(6,7) by (simp add: isGlyphGrid_def list_all_iff)
  with raw_conversion [OF assms(1-4), of sharp] show ?thesis by blast
qed

text \<open>
  Claim C5. A buffer of exactly \<open>w * h\<close> bytes is converted without the image library:
  whatever the library would do, the result is the rows \<open>0\<close> to \<open>h - 1\<close>, each made of the
  glyphs of the bytes \<open>y * w\<close> to \<open>y * w + w - 1\<close> in order, joined by newlines, and nothing
  is thrown or written to the console. The converter is in the mode its constructor
  gives it, which no method changes, and its ramp is not empty.
\<close>

theorem C5_raw_frame_direct:
  assumes "ic_mode c \<noteq> SharpMode" and "int (length src) = w * h"
    and "1 \<le> length (ic_charRamp c)" and "length (ic_charRamp c) \<le> 2 ^ 53"
  shows "convertToTerminal sharp (Some src) w h c =
     (c\<lparr>ic_lastWidth := w, ic_lastHeight := h\<rparr>, [],
      Inr (joinLines
        (map (\<lambda>y. map (\<lambda>x. ic_charRamp c !
                              nat (glyphIndex (src ! (y * nat w + x)) (length (ic_charRamp c))))
                     [0..<nat w])
           [0..<nat h])))"
  using assms by (rule raw_conversion)

theorem C5_raw_frame_direct_witness:
  "convertToTerminal (\<lambda>_ _ _. Inl []) (Some [0, 128, 255, 64]) 2 2 (ImageConverter_new default_ramp) =
     ((ImageConverter_new default_ramp)\<lparr>ic_lastWidth := 2, ic_lastHeight := 2\<rparr>, [],
      Inr [0x20, 0x2592, 0x0A, 0x2588, 0x2591])"
proof -
  let ?c = "ImageConverter_new default_ramp"
  have r: "ic_charRamp ?c = default_ramp" by (simp add: ImageConverter_new_def)
  have h1: "ic_mode ?c \<noteq> SharpMode" by (simp add: ImageConverter_new_def)
  have h2: "int (length [0, 128, 255, 64 :: byte]) = 2 * 2" by simp
  have h3: "1 \<le> length (ic_charRamp ?c)" "length (ic_charRamp ?c) \<le> 2 ^ 53"
    unfolding r by (simp_all add: default_ramp_def)
  have eval: "joinLines
        (map (\<lambda>y. map (\<lambda>x. default_ramp !
                              nat (glyphIndex ([0, 128, 255, 64] ! (y * nat 2 + x)) (length default_ramp)))
                     [0..<nat 2])
           [0..<nat 2]) = [0x20, 0x2592, 0x0A, 0x2588, 0x2591]"
    by code_simp
  from C5_raw_frame_direct [OF h1 h2 h3, of "\<lambda>_ _ _. Inl []", unfolded r eval]
  show ?thesis .
qed

section \<open>The placeholder of a failed conversion\<close>

lemma ordinary_frame_is_grid:
  "isGlyphGrid 2 2 [0x20, 0x2592, 0x0A, 0x2588, 0x2591]"
  by (simp add: isGlyphGrid_def newline_def)

lemma createErrorFrame_text:
  assumes "0 \<le> h"
  shows "createErrorFrame w h msg =
     Inr (replicate (nat (h div 2)) newline @
          replicate (nat ((w - int (length (error_prefix @ msg))) div 2)) space @
          error_prefix @ msg @ newline # replicate (nat (h - h div 2 - 1)) newline)"
proof -
  have "0 \<le> h div 2" using assms by simp
  then show ?thesis
    by (auto simp: createErrorFrame_def Let_def max_def)
qed

lemma createErrorFrame_throws: "h < 0 \<Longrightarrow> createErrorFrame w h msg = Inl RangeError"
  by (simp add: createErrorFrame_def Let_def)

lemma error_prefix_plain: "newline \<notin> set error_prefix" "space \<noteq> newline"
  by (simp_all add: error_prefix_def newline_def space_def)

text \<open>
  Claim C6, as stated, fails: the placeholder is not a grid of the requested size. For a
  failed conversion at 10 by 3 with the message \<^verbatim>\<open>bad\<close> it is an empty line, the line
  \<^verbatim>\<open>ERROR: bad\<close> and one more empty line, each ended by a newline: four rows when split as
  a frame is, three of them empty.
\<close>

theorem C6_error_frame_not_grid:
  "convertToTerminal (\<lambda>_ _ _. Inl [0x62, 0x61, 0x64]) (Some [1, 2, 3]) 10 3
     (ImageConverter_new default_ramp) =
     ((ImageConverter_new default_ramp)\<lparr>ic_lastWidth := 10, ic_lastHeight := 3\<rparr>,
      [ImageConversionError [0x62, 0x61, 0x64]],
      Inr [0x0A, 0x45, 0x52, 0x52, 0x4F, 0x52, 0x3A, 0x20, 0x62, 0x61, 0x64, 0x0A, 0x0A]) \<and>
   \<not> isGlyphGrid 10 3
     [0x0A, 0x45, 0x52, 0x52, 0x4F, 0x52, 0x3A, 0x20, 0x62, 0x61, 0x64, 0x0A, 0x0A]"
  by (simp add: convertToTerminal_def convertWithSharp_def createErrorFrame_def
      ImageConverter_new_def Let_def error_prefix_def newline_def space_def isGlyphGrid_def)

text \<open>
  Claim C6, amended. When the image library fails with a message, for a height of zero or
  more, the converter throws nothing: it writes the error to the console and returns a
  text made of \<open>h div 2\<close> empty lines, the line \<^verbatim>\<open>ERROR: \<close> followed by the message and
  indented by half of the width left over (not at all when the line is wider than the
  width), and \<open>h - h div 2 - 1\<close> further empty lines, each line ended by a newline: \<open>h\<close>
  lines for a height of one or more and a message without newline. The lines are not
  filled up to the width.
\<close>

theorem C6_error_frame:
  assumes "sharp src w h = Inl msg"
    and "int (length src) \<noteq> w * h \<or> ic_mode c = SharpMode"
    and "0 \<le> h"
  shows "\<exists>text.
     convertToTerminal sharp (Some src) w h c =
       (c\<lparr>ic_lastWidth := w, ic_lastHeight := h\<rparr>, [ImageConversionError msg], Inr text) \<and>
     text = replicate (nat (h div 2)) newline @
            replicate (nat ((w - int (length (error_prefix @ msg))) div 2)) space @
            error_prefix @ msg @ newline # replicate (nat (h - h div 2 - 1)) newline \<and>
     (newline \<notin> set msg \<longrightarrow>
        splitLines text =
          replicate (nat (h div 2)) [] @
          (replicate (nat ((w - int (length (error_prefix @ msg))) div 2)) space @
             error_prefix @ msg) #
          replicate (nat (h - h div 2 - 1)) [] @ [[]]) \<and>
     (newline \<notin> set msg \<and> 1 \<le> h \<longrightarrow> int (length (splitLines text)) = h + 1)"
proof -
  let ?pad = "replicate (nat ((w - int (length (error_prefix @ msg))) div 2)) space"
  let ?text = "replicate (nat (h div 2)) newline @ ?pad @
            error_prefix @ msg @ newline # replicate (nat (h - h div 2 - 1)) newline"
  have conv: "convertToTerminal sharp (Some src) w h c =
       (c\<lparr>ic_lastWidth := w, ic_lastHeight := h\<rparr>, [ImageConversionError msg], Inr ?text)"
    using assms(1,2) createErrorFrame_text [OF assms(3), of w msg]
    by (auto simp: convertToTerminal_def convertWithSharp_def Let_def)
  have split: "splitLines ?text =
          replicate (nat (h div 2)) [] @ (?pad @ error_prefix @ msg) #
          replicate (nat (h - h div 2 - 1)) [] @ [[]]"
    if "newline \<notin> set msg"
  proof -
    have line: "newline \<notin> set (?pad @ error_prefix @ msg)"
      using that error_prefix_plain by auto
    have "splitLines ?text =
        replicate (nat (h div 2)) [] @
        splitLines ((?pad @ error_prefix @ msg) @ newline # replicate (nat (h - h div 2 - 1)) newline)"
      using splitLines_replicate [of "nat (h div 2)"] by simp
    also have "splitLines ((?pad @ error_prefix @ msg) @ newline #
          replicate (nat (h - h div 2 - 1)) newline) =
        (?pad @ error_prefix @ msg) # splitLines (replicate (nat (h - h div 2 - 1)) newline @ [])"
      using splitLines_line [OF line] by simp
    also have "splitLines (replicate (nat (h - h div 2 - 1)) newline @ []) =
        replicate (nat (h - h div 2 - 1)) [] @ [[]]"
      unfolding splitLines_replicate by simp
    finally show ?thesis .
  qed
  have count: "int (length (splitLines ?text)) = h + 1"
    if "newline \<notin> set msg" and "1 \<le> h"
  proof -
    have "0 \<le> h div 2" "0 \<le> h - h div 2 - 1" using that(2) by simp_all
    then show ?thesis unfolding split [OF that(1)] by simp
  qed
  show ?thesis using conv split count by blast
qed

theorem C6_error_frame_witness:
  "convertToTerminal (\<lambda>_ _ _. Inl [0x62, 0x61, 0x64]) (Some [1, 2, 3]) 12 3
     (ImageConverter_new default_ramp) =
     ((ImageConverter_new default_ramp)\<lparr>ic_lastWidth := 12, ic_lastHeight := 3\<rparr>,
      [ImageConversionError [0x62, 0x61, 0x64]],
      Inr [0x0A, 0x20, 0x45, 0x52, 0x52, 0x4F, 0x52, 0x3A, 0x20, 0x62, 0x61, 0x64, 0x0A, 0x0A]) \<and>
   splitLines [0x0A, 0x20, 0x45, 0x52, 0x52, 0x4F, 0x52, 0x3A, 0x20, 0x62, 0x61, 0x64, 0x0A, 0x0A] =
     [[], [0x20, 0x45, 0x52, 0x52, 0x4F, 0x52, 0x3A, 0x20, 0x62, 0x61, 0x64], [], []]"
  using C6_error_frame [of "\<lambda>_ _ _. Inl [0x62, 0x61, 0x64]" "[1, 2, 3]" 12 3
      "[0x62, 0x61, 0x64]" "ImageConverter_new default_ramp"]
  by (simp add: error_prefix_def newline_def space_def)
section \<open>Failures in the acquisition loop\<close>

lemma wc_resume_failing:
  assumes "failing_event ev" and "wc_continuousMode s"
    and "r < length (wc_loops s)" and "wc_loops s ! r \<noteq> LoopEnded"
  shows "wc_getLatestFrame (fst (wc_resume ev s)) = wc_getLatestFrame s \<and>
         wc_continuousMode (fst (wc_resume ev s)) \<and>
         r < length (wc_loops (fst (wc_resume ev s))) \<and>
         wc_loops (fst (wc_resume ev s)) ! r \<noteq> LoopEnded"
  using assms
  by (auto simp: wc_resume_def wc_acquisitionDone_def wc_loopHead_def failing_event_def
      wc_getLatestFrame_def awaits_def nth_list_update
      split: loop_event.splits acquisition.splits)

lemma wc_run_failing:
  assumes "list_all failing_event evs" and "wc_continuousMode s"
    and "r < length (wc_loops s)" and "wc_loops s ! r \<noteq> LoopEnded"
  shows "wc_getLatestFrame (fst (wc_run evs s)) = wc_getLatestFrame s \<and>
         wc_continuousMode (fst (wc_run evs s)) \<and>
         r < length (wc_loops (fst (wc_run evs s))) \<and>
         wc_loops (fst (wc_run evs s)) ! r \<noteq> LoopEnded"
  using assms
proof (induction evs arbitrary: s)
  case Nil
  then show ?case by simp
next
  case (Cons ev evs)
  from Cons.prems have f: "failing_event ev" and fs: "list_all failing_event evs" by simp_all
  note step = wc_resume_failing [OF f Cons.prems(2,3,4)]
  from Cons.IH [OF fs, of "fst (wc_resume ev s)"] step
  show ?case by (simp add: split_beta Let_def)
qed

text \<open>
  A stop while a run is suspended in its acquisition, followed by a start: the guard of
  \<^verbatim>\<open>startContinuousCapture\<close> passes, and a second run is suspended beside the first, in
  its \<^verbatim>\<open>setImmediate\<close> since the acquisition of the first is outstanding. The first run
  goes on: its acquisition still publishes its frame.
\<close>

lemma restart_beside_suspended_run:
  assumes "r < length (wc_loops s)" and "wc_loops s ! r = LoopAcquiring"
    and "wc_captureInProgress s"
  shows "wc_startContinuousCapture (wc_stopContinuousCapture s) =
           (s\<lparr>wc_continuousMode := True, wc_captureLoopRunning := True,
              wc_loops := wc_loops s @ [LoopYielding]\<rparr>, []) \<and>
         wc_getLatestFrame (fst (wc_resume (AcquisitionEnds r (Acquired bytes) now)
           (fst (wc_startContinuousCapture (wc_stopContinuousCapture s))))) = Some bytes"
  using assms
  by (simp add: wc_startContinuousCapture_def wc_stopContinuousCapture_def wc_loopHead_def
      wc_resume_def wc_acquisitionDone_def wc_getLatestFrame_def awaits_def nth_append)

lemma restart_beside_suspended_run_example:
  "wc_loops (fst (wc_startContinuousCapture (wc_stopContinuousCapture
     (fst (wc_startContinuousCapture (fst (wc_initialize (Some 4) (Some 2) WebcamCapture_new))))))) =
   [LoopAcquiring, LoopYielding]"
  by (simp add: wc_startContinuousCapture_def wc_stopContinuousCapture_def wc_loopHead_def
      wc_initialize_def WebcamCapture_new_def truthy_def)

text \<open>
  Claim C7. When an acquisition of a run of the loop fails, at the driver or at the read
  of the file, the error is written to the console and nothing is thrown; the frame
  buffer is the one published before; the run is suspended in its \<^verbatim>\<open>setImmediate\<close>, and
  when that fires it starts the next acquisition. Through any further failures, of this
  run or of another, the same frame stays readable and the run stays alive, until an
  acquisition succeeds and its bytes replace the frame.
\<close>

theorem C7_acquisition_failure_contained:
  assumes "r < length (wc_loops s)" and "wc_loops s ! r = LoopAcquiring"
    and "wc_continuousMode s" and "failed_message outcome = Some msg"
  shows "\<exists>s1. wc_resume (AcquisitionEnds r outcome now) s = (s1, [LogContinuousCaptureError msg]) \<and>
      wc_getLatestFrame s1 = wc_getLatestFrame s \<and>
      wc_loops s1 = (wc_loops s)[r := LoopYielding] \<and> wc_loops s1 ! r = LoopYielding \<and>
      wc_continuousMode s1 \<and> \<not> wc_captureInProgress s1 \<and>
      wc_resume (ImmediateFires r) s1 =
        (s1\<lparr>wc_captureInProgress := True, wc_loops := (wc_loops s1)[r := LoopAcquiring]\<rparr>,
         [RequestCapture]) \<and>
      (list_all failing_event evs \<longrightarrow>
         wc_getLatestFrame (fst (wc_run evs s1)) = wc_getLatestFrame s \<and>
         r < length (wc_loops (fst (wc_run evs s1))) \<and>
         wc_loops (fst (wc_run evs s1)) ! r \<noteq> LoopEnded \<and>
         (wc_loops (fst (wc_run evs s1)) ! r = LoopAcquiring \<longrightarrow>
            wc_getLatestFrame (fst (wc_resume (AcquisitionEnds r (Acquired bytes) now')
              (fst (wc_run evs s1)))) = Some bytes))"
proof -
  obtain s1 where s1: "wc_resume (AcquisitionEnds r outcome now) s = (s1, [LogContinuousCaptureError msg])"
    and same: "wc_getLatestFrame s1 = wc_getLatestFrame s"
    and loops: "wc_loops s1 = (wc_loops s)[r := LoopYielding]"
    and cont: "wc_continuousMode s1"
    and prog: "\<not> wc_captureInProgress s1"
    using assms
    by (auto simp: wc_resume_def wc_acquisitionDone_def failed_message_def wc_getLatestFrame_def
        awaits_def split: acquisition.splits)
  have len: "r < length (wc_loops s1)" using assms(1) by (simp add: loops)
  have loop: "wc_loops s1 ! r = LoopYielding" using assms(1) by (simp add: loops)
  have next_it: "wc_resume (ImmediateFires r) s1 =
        (s1\<lparr>wc_captureInProgress := True, wc_loops := (wc_loops s1)[r := LoopAcquiring]\<rparr>,
         [RequestCapture])"
    using len loop cont prog by (simp add: wc_resume_def wc_loopHead_def awaits_def)
  have later: "wc_getLatestFrame (fst (wc_run evs s1)) = wc_getLatestFrame s \<and>
         r < length (wc_loops (fst (wc_run evs s1))) \<and>
         wc_loops (fst (wc_run evs s1)) ! r \<noteq> LoopEnded \<and>
         (wc_loops (fst (wc_run evs s1)) ! r = LoopAcquiring \<longrightarrow>
            wc_getLatestFrame (fst (wc_resume (AcquisitionEnds r (Acquired bytes) now')
              (fst (wc_run evs s1)))) = Some bytes)"
    if "list_all failing_event evs"
  proof -
    from loop have "wc_loops s1 ! r \<noteq> LoopEnded" by simp
    from wc_run_failing [OF that cont len this] same
    show ?thesis
      by (auto simp: wc_resume_def wc_acquisitionDone_def wc_getLatestFrame_def awaits_def)
  qed
  show ?thesis using s1 same loops loop cont prog next_it later by blast
qed

theorem C7_acquisition_failure_contained_witness:
  "\<exists>s1. wc_resume (AcquisitionEnds 0 (CaptureFailed [0x78]) 5)
           ((fst (wc_startContinuousCapture (fst (wc_initialize (Some 4) (Some 2) WebcamCapture_new))))
              \<lparr>wc_lastFrameBuffer := Some [1, 2, 3]\<rparr>) =
         (s1, [LogContinuousCaptureError [0x78]]) \<and>
      wc_getLatestFrame s1 = Some [1, 2, 3] \<and> wc_loops s1 = [LoopYielding] \<and>
      wc_getLatestFrame (fst (wc_run [ImmediateFires 0, AcquisitionEnds 0 (ReadFailed [0x79]) 6,
        ImmediateFires 0] s1)) = Some [1, 2, 3] \<and>
      wc_getLatestFrame (fst (wc_resume (AcquisitionEnds 0 (Acquired [9, 9]) 7)
        (fst (wc_run [ImmediateFires 0, AcquisitionEnds 0 (ReadFailed [0x79]) 6,
        ImmediateFires 0] s1)))) = Some [9, 9]"
  using C7_acquisition_failure_contained [of 0
      "(fst (wc_startContinuousCapture (fst (wc_initialize (Some 4) (Some 2) WebcamCapture_new))))
              \<lparr>wc_lastFrameBuffer := Some [1, 2, 3]\<rparr>"
      "CaptureFailed [0x78]" "[0x78]" 5
      "[ImmediateFires 0, AcquisitionEnds 0 (ReadFailed [0x79]) 6, ImmediateFires 0]" "[9, 9]" 7]
  by (simp add: wc_startContinuousCapture_def wc_initialize_def WebcamCapture_new_def
      wc_loopHead_def truthy_def failed_message_def failing_event_def wc_getLatestFrame_def
      wc_resume_def wc_acquisitionDone_def awaits_def Let_def)


section \<open>A change of resolution to the same dimensions\<close>

text \<open>
  Claim C8. On each of the three components, \<^verbatim>\<open>updateResolution\<close> called with the
  dimensions the component holds returns its state as it was and does nothing outside:
  no process is killed or spawned and no driver object is created.
\<close>

theorem C8_updateResolution_same_noop:
  "fc_updateResolution pid (fc_width s) (fc_height s) s = (s, []) \<and>
   wc_updateResolution (cfg_width (wc_config sw)) (cfg_height (wc_config sw)) sw = (sw, []) \<and>
   hc_updateResolution pid (hc_width hs) (hc_height hs) hs = (hs, [])"
  by (simp add: fc_updateResolution_def wc_updateResolution_def hc_updateResolution_def)

theorem C8_updateResolution_same_noop_witness:
  "fc_updateResolution 1 2 2 (fst (fc_start 0 (fst (fc_initialize True 2 2 (FFmpegCapture_new Linux 0))))) =
     (fst (fc_start 0 (fst (fc_initialize True 2 2 (FFmpegCapture_new Linux 0)))), []) \<and>
   wc_updateResolution 600 150 WebcamCapture_new = (WebcamCapture_new, []) \<and>
   hc_updateResolution 1 600 150 HybridCapture_new = (HybridCapture_new, [])"
  using C8_updateResolution_same_noop
    [of 1 "fst (fc_start 0 (fst (fc_initialize True 2 2 (FFmpegCapture_new Linux 0))))"
        WebcamCapture_new HybridCapture_new]
  by (simp add: fc_start_def fc_initialize_def FFmpegCapture_new_def WebcamCapture_new_def
      HybridCapture_new_def default_config_def createWebcamConfig_def
      getOptimalCaptureResolution_def)


section \<open>The performance accumulators\<close>


lemma trackPerformance_disabled:
  "\<not> tr_enablePerfLogging r \<Longrightarrow>
   \<not> tr_enablePerfLogging (fst (trackPerformance mode c s t r)) \<and>
   ps_sampleCount (tr_performanceStats (fst (trackPerformance mode c s t r))) =
     ps_sampleCount (tr_performanceStats r) + 1"
  by (simp add: trackPerformance_def Let_def)

lemma trackMany_disabled:
  "\<not> tr_enablePerfLogging r \<Longrightarrow>
   ps_sampleCount (tr_performanceStats (trackMany xs r)) =
     ps_sampleCount (tr_performanceStats r) + int (length xs)"
proof (induction xs arbitrary: r)
  case Nil
  then show ?case by simp
next
  case (Cons x xs)
  obtain c s t where x: "x = (c, s, t)" by (cases x)
  from trackPerformance_disabled [OF Cons.prems, of None c s t] Cons.IH
  show ?case by (simp add: x)
qed

text \<open>
  Claim C9, as stated, fails: the reset stands under the test of \<^verbatim>\<open>enablePerfLogging\<close>,
  which the constructor turns off, so after 101 ticks of a new renderer the sample count
  is 101.
\<close>

theorem C9_count_reaches_101:
  "ps_sampleCount (tr_performanceStats
     (trackMany (replicate 101 (0, 0, 0)) (TerminalRenderer_new default_config 0 :: int renderer))) = 101"
proof -
  have "\<not> tr_enablePerfLogging (TerminalRenderer_new default_config 0 :: int renderer)"
    by (simp add: TerminalRenderer_new_def)
  from trackMany_disabled [OF this, of "replicate 101 (0, 0, 0)"]
  show ?thesis by (simp add: TerminalRenderer_new_def zero_stats_def)
qed

text \<open>
  Claim C9, amended. A call of \<^verbatim>\<open>_trackPerformance\<close> with logging on that brings the sample
  count to a multiple of 100 reports the accumulated times and resets the four
  accumulators to zero; every other call only accumulates. With logging on and a count
  from 0 to 99 before the call, the count is from 0 to 99 after it.
\<close>

theorem C9_reset_when_logging:
  fixes r :: "'t::{zero,plus} renderer"
  shows "(tr_enablePerfLogging r \<and> (ps_sampleCount (tr_performanceStats r) + 1) mod 100 = 0 \<longrightarrow>
       trackPerformance mode c s t r =
         (r\<lparr>tr_performanceStats := zero_stats\<rparr>,
          [EvPerfReport mode
             \<lparr>ps_captureTime = ps_captureTime (tr_performanceStats r) + c,
              ps_sharpTime = ps_sharpTime (tr_performanceStats r) + s,
              ps_totalTime = ps_totalTime (tr_performanceStats r) + t,
              ps_sampleCount = ps_sampleCount (tr_performanceStats r) + 1\<rparr>
             (tr_currentFps r)])) \<and>
     (\<not> (tr_enablePerfLogging r \<and> (ps_sampleCount (tr_performanceStats r) + 1) mod 100 = 0) \<longrightarrow>
       trackPerformance mode c s t r =
         (r\<lparr>tr_performanceStats :=
              \<lparr>ps_captureTime = ps_captureTime (tr_performanceStats r) + c,
               ps_sharpTime = ps_sharpTime (tr_performanceStats r) + s,
               ps_totalTime = ps_totalTime (tr_performanceStats r) + t,
               ps_sampleCount = ps_sampleCount (tr_performanceStats r) + 1\<rparr>\<rparr>, [])) \<and>
     (tr_enablePerfLogging r \<and> 0 \<le> ps_sampleCount (tr_performanceStats r) \<and>
      ps_sampleCount (tr_performanceStats r) < 100 \<longrightarrow>
       0 \<le> ps_sampleCount (tr_performanceStats (fst (trackPerformance mode c s t r))) \<and>
       ps_sampleCount (tr_performanceStats (fst (trackPerformance mode c s t r))) < 100)"
proof -
  have "ps_sampleCount (tr_performanceStats r) < 100 \<Longrightarrow>
        (ps_sampleCount (tr_performanceStats r) + 1) mod 100 \<noteq> 0 \<Longrightarrow>
        ps_sampleCount (tr_performanceStats r) + 1 < 100"
    by presburger
  then show ?thesis
    by (cases "tr_performanceStats r") (auto simp: trackPerformance_def Let_def zero_stats_def)
qed

theorem C9_reset_when_logging_witness:
  "trackPerformance (Some Hardware) 1 2 3
     ((TerminalRenderer_new default_config 0 :: int renderer)
        \<lparr>tr_enablePerfLogging := True,
         tr_performanceStats := \<lparr>ps_captureTime = 5, ps_sharpTime = 7, ps_totalTime = 12,
                                 ps_sampleCount = 99\<rparr>\<rparr>) =
   ((TerminalRenderer_new default_config 0)
        \<lparr>tr_enablePerfLogging := True, tr_performanceStats := zero_stats\<rparr>,
    [EvPerfReport (Some Hardware)
       \<lparr>ps_captureTime = 6, ps_sharpTime = 9, ps_totalTime = 15, ps_sampleCount = 100\<rparr> 0])"
  using C9_reset_when_logging [of
      "(TerminalRenderer_new default_config 0 :: int renderer)
        \<lparr>tr_enablePerfLogging := True,
         tr_performanceStats := \<lparr>ps_captureTime = 5, ps_sharpTime = 7, ps_totalTime = 12,
                                 ps_sampleCount = 99\<rparr>\<rparr>" "Some Hardware" 1 2 3]
  by (simp add: TerminalRenderer_new_def)

section \<open>The converter on an absent source\<close>

text \<open>
  Claim C10. For an absent image source \<^verbatim>\<open>convertToTerminal\<close> returns the empty string,
  throws nothing, writes nothing to the console and leaves the converter as it was; the
  placeholder of a failed conversion is never the empty string.
\<close>

theorem C10_absent_source_empty_string:
  "convertToTerminal sharp None w h c = (c, [], Inr []) \<and>
   createErrorFrame w h msg \<noteq> Inr []"
  by (simp add: convertToTerminal_def createErrorFrame_def Let_def)


end
